theory Spec2Isabelle
  imports Complex_Main "HOL-Library.Word"
begin

section \<open>The rate normalizer of sysinfo\_influxdb (main.go)\<close>

subsection \<open>Binary64 arithmetic as far as DiffFromLast uses it\<close>

text \<open>
  DiffFromLast converts an integer difference to float64, multiplies it by the global
  consistencyFactor and converts the product back to the integer type of the cell.
  A float64 is modelled by its value: \<open>Finite m e\<close> stands for \<open>m * 2 ^ e\<close>, next to the
  two infinities (\<open>Infinite True\<close> is the negative one) and NaN.  The sign of a zero is
  not kept: the only observer is the conversion to an integer type, which maps both
  zeros to 0.  Rounding is to nearest, ties to even, with 53 bits of precision, the
  smallest exponent -1074 and overflow to infinity from \<open>2 ^ 1024\<close> on.
\<close>

datatype f64 = Finite int int | Infinite bool | NaN

text \<open>The number of bits of a positive integer, and division by \<open>2 ^ k\<close> rounded to
  nearest, ties to even.\<close>

function bitlen :: "int \<Rightarrow> int" where
  "bitlen n = (if n \<le> 0 then 0 else 1 + bitlen (n div 2))"
  by pat_completeness auto
termination
  by (relation "measure nat") auto

declare bitlen.simps [simp del]

definition round_even :: "int \<Rightarrow> nat \<Rightarrow> int" where
  "round_even m k =
     (let q = m div 2 ^ k; r = m mod 2 ^ k
      in if 2 ^ k < 2 * r \<or> (2 * r = 2 ^ k \<and> odd q) then q + 1 else q)"

definition f64_round :: "int \<Rightarrow> int \<Rightarrow> f64" where
  "f64_round m e =
     (if m = 0 then Finite 0 0
      else let n = bitlen \<bar>m\<bar>;
               k = max (n - 53) (- 1074 - e)
           in if k \<le> 0
              then (if 1024 < n + e then Infinite (m < 0) else Finite m e)
              else let q = round_even \<bar>m\<bar> (nat k)
                   in if 1024 < bitlen q + (e + k) then Infinite (m < 0)
                      else Finite (sgn m * q) (e + k))"

fun f64_mul :: "f64 \<Rightarrow> f64 \<Rightarrow> f64" where
  "f64_mul NaN y = NaN"
| "f64_mul (Infinite s) NaN = NaN"
| "f64_mul (Finite m e) NaN = NaN"
| "f64_mul (Infinite s) (Infinite t) = Infinite (s \<noteq> t)"
| "f64_mul (Infinite s) (Finite m e) = (if m = 0 then NaN else Infinite (s \<noteq> (m < 0)))"
| "f64_mul (Finite m e) (Infinite s) = (if m = 0 then NaN else Infinite ((m < 0) \<noteq> s))"
| "f64_mul (Finite m1 e1) (Finite m2 e2) = f64_round (m1 * m2) (e1 + e2)"

text \<open>Conversion of an integer to float64: the nearest float64.\<close>

definition f64_of_int :: "int \<Rightarrow> f64" where
  "f64_of_int d = f64_round d 0"

text \<open>
  Conversion of a float64 to an integer type discards the fraction.  When the result
  type cannot represent the value, Go leaves the result to the implementation: the
  model takes that choice as the parameter \<open>impl\<close> (signedness, width and operand to
  result).
\<close>

definition f64_trunc :: "int \<Rightarrow> int \<Rightarrow> int" where
  "f64_trunc m e =
     (if 0 \<le> e then m * 2 ^ nat e else sgn m * (\<bar>m\<bar> div 2 ^ nat (- e)))"

type_synonym conv_impl = "bool \<Rightarrow> nat \<Rightarrow> f64 \<Rightarrow> int"

definition representable :: "bool \<Rightarrow> nat \<Rightarrow> int \<Rightarrow> bool" where
  "representable sg w t =
     (if sg then - (2 ^ (w - 1)) \<le> t \<and> t < 2 ^ (w - 1) else 0 \<le> t \<and> t < 2 ^ w)"

definition f64_to_int :: "conv_impl \<Rightarrow> bool \<Rightarrow> nat \<Rightarrow> f64 \<Rightarrow> int" where
  "f64_to_int impl sg w x =
     (case x of
        Finite m e \<Rightarrow>
          if representable sg w (f64_trunc m e) then f64_trunc m e else impl sg w x
      | Infinite s \<Rightarrow> impl sg w x
      | NaN \<Rightarrow> impl sg w x)"

text \<open>
  \<open>intN(float64(d) * consistencyFactor)\<close> and \<open>uintN(float64(d) * consistencyFactor)\<close>
  for a difference \<open>d\<close> already computed in the cell's width.
\<close>

definition scale_signed :: "conv_impl \<Rightarrow> f64 \<Rightarrow> 'a::len word \<Rightarrow> 'a word" where
  "scale_signed impl cf d =
     word_of_int (f64_to_int impl True LENGTH('a) (f64_mul (f64_of_int (sint d)) cf))"

definition scale_unsigned :: "conv_impl \<Rightarrow> f64 \<Rightarrow> 'a::len word \<Rightarrow> 'a word" where
  "scale_unsigned impl cf d =
     word_of_int (f64_to_int impl False LENGTH('a) (f64_mul (f64_of_int (uint d)) cf))"

subsection \<open>Table cells, tables and the global state\<close>

text \<open>
  A cell is an \<open>interface{}\<close> value: a dynamic type with a value of that type.  The
  samplers store strings, uint64, int and float64; the type switch of DiffFromLast
  distinguishes the ten integer types.  Go's \<open>int\<close> and \<open>uint\<close> are taken at 64 bits.
\<close>

datatype val =
    VInt8 "8 word" | VInt16 "16 word" | VInt32 "32 word" | VInt64 "64 word"
  | VUint8 "8 word" | VUint16 "16 word" | VUint32 "32 word" | VUint64 "64 word"
  | VInt "64 word" | VUint "64 word"
  | VString string | VFloat64 f64 | VNil

datatype panic = InterfaceConversion | IndexOutOfRange | NilPointerDereference

record series =
  Name :: string
  Columns :: "string list"
  Points :: "val list list"

text \<open>
  The global variables \<open>consistencyFactor\<close> and \<open>last_series\<close>, and the heap of Series
  objects: a \<open>*Series\<close> is \<open>None\<close> (nil) or \<open>Some p\<close> with \<open>p\<close> an index into the heap.
  The rows of a Series are kept with the object; no sampler shares a row between two
  tables.
\<close>

record world =
  consistencyFactor :: f64
  last_series :: "string \<rightharpoonup> val list list"
  heap :: "series list"

subsection \<open>DiffFromLast\<close>

text \<open>The type assertions \<open>tmp.(T)\<close>: a panic when the dynamic type of \<open>tmp\<close> is not \<open>T\<close>.\<close>

fun as_int8 :: "val \<Rightarrow> panic + 8 word" where
  "as_int8 (VInt8 y) = Inr y" | "as_int8 v = Inl InterfaceConversion"

fun as_int16 :: "val \<Rightarrow> panic + 16 word" where
  "as_int16 (VInt16 y) = Inr y" | "as_int16 v = Inl InterfaceConversion"

fun as_int32 :: "val \<Rightarrow> panic + 32 word" where
  "as_int32 (VInt32 y) = Inr y" | "as_int32 v = Inl InterfaceConversion"

fun as_int64 :: "val \<Rightarrow> panic + 64 word" where
  "as_int64 (VInt64 y) = Inr y" | "as_int64 v = Inl InterfaceConversion"

fun as_uint8 :: "val \<Rightarrow> panic + 8 word" where
  "as_uint8 (VUint8 y) = Inr y" | "as_uint8 v = Inl InterfaceConversion"

fun as_uint16 :: "val \<Rightarrow> panic + 16 word" where
  "as_uint16 (VUint16 y) = Inr y" | "as_uint16 v = Inl InterfaceConversion"

fun as_uint32 :: "val \<Rightarrow> panic + 32 word" where
  "as_uint32 (VUint32 y) = Inr y" | "as_uint32 v = Inl InterfaceConversion"

fun as_uint64 :: "val \<Rightarrow> panic + 64 word" where
  "as_uint64 (VUint64 y) = Inr y" | "as_uint64 v = Inl InterfaceConversion"

fun as_int :: "val \<Rightarrow> panic + 64 word" where
  "as_int (VInt y) = Inr y" | "as_int v = Inl InterfaceConversion"

fun as_uint :: "val \<Rightarrow> panic + 64 word" where
  "as_uint (VUint y) = Inr y" | "as_uint v = Inl InterfaceConversion"

text \<open>
  The type switch on \<open>serie.Points[i][j]\<close> (lines 308 to 329): \<open>cur\<close> is the cell, \<open>tmp\<close>
  the value it is diffed against.  A cell of any other type is left as it is.
\<close>

fun diff_switch :: "conv_impl \<Rightarrow> f64 \<Rightarrow> val \<Rightarrow> val \<Rightarrow> panic + val" where
  "diff_switch impl cf (VInt8 x) tmp =
     (case as_int8 tmp of Inl e \<Rightarrow> Inl e | Inr y \<Rightarrow> Inr (VInt8 (scale_signed impl cf (x - y))))"
| "diff_switch impl cf (VInt16 x) tmp =
     (case as_int16 tmp of Inl e \<Rightarrow> Inl e | Inr y \<Rightarrow> Inr (VInt16 (scale_signed impl cf (x - y))))"
| "diff_switch impl cf (VInt32 x) tmp =
     (case as_int32 tmp of Inl e \<Rightarrow> Inl e | Inr y \<Rightarrow> Inr (VInt32 (scale_signed impl cf (x - y))))"
| "diff_switch impl cf (VInt64 x) tmp =
     (case as_int64 tmp of Inl e \<Rightarrow> Inl e | Inr y \<Rightarrow> Inr (VInt64 (scale_signed impl cf (x - y))))"
| "diff_switch impl cf (VUint8 x) tmp =
     (case as_uint8 tmp of Inl e \<Rightarrow> Inl e | Inr y \<Rightarrow> Inr (VUint8 (scale_unsigned impl cf (x - y))))"
| "diff_switch impl cf (VUint16 x) tmp =
     (case as_uint16 tmp of Inl e \<Rightarrow> Inl e | Inr y \<Rightarrow> Inr (VUint16 (scale_unsigned impl cf (x - y))))"
| "diff_switch impl cf (VUint32 x) tmp =
     (case as_uint32 tmp of Inl e \<Rightarrow> Inl e | Inr y \<Rightarrow> Inr (VUint32 (scale_unsigned impl cf (x - y))))"
| "diff_switch impl cf (VUint64 x) tmp =
     (case as_uint64 tmp of Inl e \<Rightarrow> Inl e | Inr y \<Rightarrow> Inr (VUint64 (scale_unsigned impl cf (x - y))))"
| "diff_switch impl cf (VInt x) tmp =
     (case as_int tmp of Inl e \<Rightarrow> Inl e | Inr y \<Rightarrow> Inr (VInt (scale_signed impl cf (x - y))))"
| "diff_switch impl cf (VUint x) tmp =
     (case as_uint tmp of Inl e \<Rightarrow> Inl e | Inr y \<Rightarrow> Inr (VUint (scale_unsigned impl cf (x - y))))"
| "diff_switch impl cf (VString s) tmp = Inr (VString s)"
| "diff_switch impl cf (VFloat64 x) tmp = Inr (VFloat64 x)"
| "diff_switch impl cf VNil tmp = Inr VNil"

text \<open>
  The loop over \<open>j\<close> (lines 297 to 330) reads and writes \<open>last_series[serie.Name][i]\<close>
  (here \<open>lrow\<close>) and \<open>serie.Points[i]\<close> (here \<open>prow\<close>) only; \<open>nc\<close> is \<open>notComplete\<close>.
\<close>

function inner_loop ::
  "conv_impl \<Rightarrow> f64 \<Rightarrow> nat \<Rightarrow> val list \<Rightarrow> val list \<Rightarrow> bool \<Rightarrow> panic + (val list \<times> val list \<times> bool)"
where
  "inner_loop impl cf j lrow prow nc =
     (if j < length prow then
        (let (tmp, lrow', nc') =
               (if length lrow \<le> j
                then (prow ! j, lrow @ [prow ! j], True)
                else (lrow ! j, lrow[j := prow ! j], nc))
         in case diff_switch impl cf (prow ! j) tmp of
              Inl e \<Rightarrow> Inl e
            | Inr v \<Rightarrow> inner_loop impl cf (Suc j) lrow' (prow[j := v]) nc')
      else Inr (lrow, prow, nc))"
  by pat_completeness auto
termination
  by (relation "measure (\<lambda>(impl, cf, j, lrow, prow, nc). length prow - j)") auto

declare inner_loop.simps [simp del]

text \<open>
  The loop over \<open>i\<close> (lines 293 to 331) on \<open>ls = last_series[serie.Name]\<close> and
  \<open>pts = serie.Points\<close>.  The bounds check of \<open>last_series[serie.Name][i]\<close> is written
  out.
\<close>

function outer_loop ::
  "conv_impl \<Rightarrow> f64 \<Rightarrow> nat \<Rightarrow> val list list \<Rightarrow> val list list \<Rightarrow> bool
     \<Rightarrow> panic + (val list list \<times> val list list \<times> bool)"
where
  "outer_loop impl cf i ls pts nc =
     (if i < length pts then
        (let ls' = (if length ls \<le> i then ls @ [[]] else ls)
         in if i < length ls' then
              (case inner_loop impl cf 0 (ls' ! i) (pts ! i) nc of
                 Inl e \<Rightarrow> Inl e
               | Inr (lrow, prow, nc') \<Rightarrow>
                   outer_loop impl cf (Suc i) (ls'[i := lrow]) (pts[i := prow]) nc')
            else Inl IndexOutOfRange)
      else Inr (ls, pts, nc))"
  by pat_completeness auto
termination
  by (relation "measure (\<lambda>(impl, cf, i, ls, pts, nc). length pts - i)") auto

declare outer_loop.simps [simp del]

text \<open>
  \<open>last_series[name]\<close> after lines 289 to 291: a name that is absent is entered with
  the empty table.
\<close>

definition rows_of :: "world \<Rightarrow> string \<Rightarrow> val list list" where
  "rows_of w name = (case last_series w name of None \<Rightarrow> [] | Some ls \<Rightarrow> ls)"

text \<open>
  DiffFromLast (lines 286 to 338).  The result is the new global state and the
  returned pointer: nil, or the argument itself.  The two iterations work on the rows
  cached for the name and on the points of the argument, and both are stored when the
  iterations have ended: a panic ends the process, so no state in between is ever
  observed.  An index beyond the heap does not occur in Go (there is no dangling
  pointer); the model treats it like nil.
\<close>

definition DiffFromLast :: "conv_impl \<Rightarrow> world \<Rightarrow> nat option \<Rightarrow> panic + (world \<times> nat option)" where
  "DiffFromLast impl w serie =
     (case serie of
        None \<Rightarrow> Inl NilPointerDereference
      | Some p \<Rightarrow>
          if length (heap w) \<le> p then Inl NilPointerDereference
          else
            let s = heap w ! p;
                ls0 = rows_of w (Name s)
            in case outer_loop impl (consistencyFactor w) 0 ls0 (Points s) False of
                 Inl e \<Rightarrow> Inl e
               | Inr (ls, pts, notComplete) \<Rightarrow>
                   let cache = (last_series w)(Name s \<mapsto> ls);
                       objs = (heap w)[p := s\<lparr>Points := pts\<rparr>]
                   in Inr (w\<lparr>last_series := cache, heap := objs\<rparr>,
                           if notComplete then None else Some p))"


section \<open>The samplers\<close>

subsection \<open>The environment of a lap\<close>

text \<open>
  What the operating system and the libraries return during one lap.  The sigar
  structures carry the fields the samplers read (\<open>cpu_Total\<close> is the result of
  \<open>cpu.Total()\<close>); \<open>Open\<close> gives the lines that a \<open>bufio.Scanner\<close> reads from a file that
  could be opened; \<open>Fields\<close> and \<open>Atoi\<close> are \<open>strings.Fields\<close> and \<open>strconv.Atoi\<close>;
  \<open>getFqdn\<close> is the result of the function of that name (lines 86 to 98).  A Go \<open>error\<close> is its message.
\<close>

type_synonym go_error = string

record cpu_t =
  cpu_User :: "64 word"
  cpu_Nice :: "64 word"
  cpu_Sys :: "64 word"
  cpu_Idle :: "64 word"
  cpu_Wait :: "64 word"
  cpu_Total :: "64 word"

record mem_t =
  mem_Free :: "64 word"
  mem_Used :: "64 word"
  mem_ActualFree :: "64 word"
  mem_ActualUsed :: "64 word"
  mem_Total :: "64 word"

record swap_t =
  swap_Free :: "64 word"
  swap_Used :: "64 word"
  swap_Total :: "64 word"

record load_t =
  load_One :: f64
  load_Five :: f64
  load_Fifteen :: f64

record statfs_t =
  Bsize :: "64 word"
  Blocks :: "64 word"
  Bfree :: "64 word"

record env =
  cpu_Get :: "go_error + cpu_t"
  cpus_Get :: "cpu_t list"
  mem_Get :: "go_error + mem_t"
  swap_Get :: "go_error + swap_t"
  uptime_Get :: "go_error + f64"
  load_Get :: "go_error + load_t"
  Open :: "string \<Rightarrow> go_error + string list"
  Statfs :: "string \<Rightarrow> go_error + statfs_t"
  Fields :: "string \<Rightarrow> string list"
  Atoi :: "string \<Rightarrow> go_error + 64 word"
  getFqdn :: string

subsection \<open>The state of the process\<close>

text \<open>
  The global variables and the heap, and the values that were sent on the channel \<open>ch\<close>
  and not yet received.  The channel has room for one value of every sampler, so a
  send never waits.
\<close>

record state =
  globals :: world
  ch :: "nat option list"

text \<open>\<open>&influxClient.Series{...}\<close>, \<open>serie.Points = append(serie.Points, row)\<close> and \<open>ch <- v\<close>.\<close>

definition new_series :: "series \<Rightarrow> state \<Rightarrow> nat \<times> state" where
  "new_series s st =
     (length (heap (globals st)),
      st\<lparr>globals := (globals st)\<lparr>heap := heap (globals st) @ [s]\<rparr>\<rparr>)"

definition add_point :: "nat \<Rightarrow> val list \<Rightarrow> state \<Rightarrow> state" where
  "add_point p row st =
     (let h = heap (globals st); s = h ! p
      in st\<lparr>globals := (globals st)\<lparr>heap := h[p := s\<lparr>Points := Points s @ [row]\<rparr>]\<rparr>\<rparr>)"

definition chan_send :: "nat option \<Rightarrow> state \<Rightarrow> state" where
  "chan_send v st = st\<lparr>ch := ch st @ [v]\<rparr>"

text \<open>\<open>ch <- DiffFromLast(serie); return nil\<close>, the end of the four counter samplers.\<close>

definition diff_and_send :: "conv_impl \<Rightarrow> nat \<Rightarrow> state \<Rightarrow> panic + (state \<times> go_error option)" where
  "diff_and_send impl serie st =
     (case DiffFromLast impl (globals st) (Some serie) of
        Inl e \<Rightarrow> Inl e
      | Inr (w, r) \<Rightarrow> Inr (chan_send r (st\<lparr>globals := w\<rparr>), None))"

subsection \<open>Library functions with a fixed meaning\<close>

text \<open>\<open>stringInSlice\<close> (lines 101 to 108).\<close>

fun stringInSlice :: "string \<Rightarrow> string list \<Rightarrow> bool" where
  "stringInSlice a [] = False"
| "stringInSlice a (b # list) = (if b = a then True else stringInSlice a list)"

text \<open>\<open>strings.Split(line, ":")\<close>, \<open>strings.Trim(s, " ")\<close> and the decimal digits of
  \<open>fmt.Sprint("cpu", i)\<close>.\<close>

fun split_colon :: "string \<Rightarrow> string list" where
  "split_colon [] = [[]]"
| "split_colon (c # cs) =
     (if c = CHR '':'' then [] # split_colon cs
      else (case split_colon cs of [] \<Rightarrow> [[c]] | x # xs \<Rightarrow> (c # x) # xs))"

definition trim_spaces :: "string \<Rightarrow> string" where
  "trim_spaces s =
     rev (dropWhile (\<lambda>c. c = CHR '' '') (rev (dropWhile (\<lambda>c. c = CHR '' '') s)))"

definition digit :: "nat \<Rightarrow> char" where
  "digit d = char_of (48 + d)"

function decimal :: "nat \<Rightarrow> string" where
  "decimal n = (if n < 10 then [digit n] else decimal (n div 10) @ [digit (n mod 10)])"
  by pat_completeness auto
termination
  by (relation "measure id") auto

declare decimal.simps [simp del]

subsection \<open>cpu, cpus\<close>

definition cpu_columns :: "string list" where
  "cpu_columns = [''id'', ''user'', ''nice'', ''sys'', ''idle'', ''wait'', ''total'']"

definition cpu_row :: "string \<Rightarrow> cpu_t \<Rightarrow> val list" where
  "cpu_row ident c =
     [VString ident, VUint64 (cpu_User c), VUint64 (cpu_Nice c), VUint64 (cpu_Sys c),
      VUint64 (cpu_Idle c), VUint64 (cpu_Wait c), VUint64 (cpu_Total c)]"

definition cpu :: "conv_impl \<Rightarrow> env \<Rightarrow> string \<Rightarrow> state \<Rightarrow> panic + (state \<times> go_error option)" where
  "cpu impl e prefix st =
     (let (serie, st1) = new_series \<lparr>Name = prefix @ ''cpu'', Columns = cpu_columns, Points = []\<rparr> st
      in case cpu_Get e of
           Inl err \<Rightarrow> Inr (chan_send None st1, Some err)
         | Inr c \<Rightarrow> diff_and_send impl serie (add_point serie (cpu_row ''cpu'' c) st1))"

text \<open>The loop over \<open>cpus.List\<close> (lines 373 to 375); the error of \<open>cpus.Get()\<close> is dropped.\<close>

fun cpus_rows :: "nat \<Rightarrow> nat \<Rightarrow> cpu_t list \<Rightarrow> state \<Rightarrow> state" where
  "cpus_rows serie i [] st = st"
| "cpus_rows serie i (c # cs) st =
     cpus_rows serie (Suc i) cs (add_point serie (cpu_row (''cpu'' @ decimal i) c) st)"

definition cpus :: "conv_impl \<Rightarrow> env \<Rightarrow> string \<Rightarrow> state \<Rightarrow> panic + (state \<times> go_error option)" where
  "cpus impl e prefix st =
     (let (serie, st1) = new_series \<lparr>Name = prefix @ ''cpus'', Columns = cpu_columns, Points = []\<rparr> st
      in diff_and_send impl serie (cpus_rows serie 0 (cpus_Get e) st1))"

subsection \<open>mem, swap, uptime, load\<close>

definition mem :: "conv_impl \<Rightarrow> env \<Rightarrow> string \<Rightarrow> state \<Rightarrow> panic + (state \<times> go_error option)" where
  "mem impl e prefix st =
     (let (serie, st1) =
            new_series \<lparr>Name = prefix @ ''mem'',
                        Columns = [''free'', ''used'', ''actualfree'', ''actualused'', ''total''],
                        Points = []\<rparr> st
      in case mem_Get e of
           Inl err \<Rightarrow> Inr (chan_send None st1, Some err)
         | Inr m \<Rightarrow>
             Inr (chan_send (Some serie)
                    (add_point serie
                       [VUint64 (mem_Free m), VUint64 (mem_Used m), VUint64 (mem_ActualFree m),
                        VUint64 (mem_ActualUsed m), VUint64 (mem_Total m)] st1),
                  None))"

definition swap :: "conv_impl \<Rightarrow> env \<Rightarrow> string \<Rightarrow> state \<Rightarrow> panic + (state \<times> go_error option)" where
  "swap impl e prefix st =
     (let (serie, st1) =
            new_series \<lparr>Name = prefix @ ''swap'', Columns = [''free'', ''used'', ''total''],
                        Points = []\<rparr> st
      in case swap_Get e of
           Inl err \<Rightarrow> Inr (chan_send None st1, Some err)
         | Inr s \<Rightarrow>
             Inr (chan_send (Some serie)
                    (add_point serie
                       [VUint64 (swap_Free s), VUint64 (swap_Used s), VUint64 (swap_Total s)] st1),
                  None))"

definition uptime :: "conv_impl \<Rightarrow> env \<Rightarrow> string \<Rightarrow> state \<Rightarrow> panic + (state \<times> go_error option)" where
  "uptime impl e prefix st =
     (let (serie, st1) =
            new_series \<lparr>Name = prefix @ ''uptime'', Columns = [''length''], Points = []\<rparr> st
      in case uptime_Get e of
           Inl err \<Rightarrow> Inr (chan_send None st1, Some err)
         | Inr l \<Rightarrow> Inr (chan_send (Some serie) (add_point serie [VFloat64 l] st1), None))"

definition load :: "conv_impl \<Rightarrow> env \<Rightarrow> string \<Rightarrow> state \<Rightarrow> panic + (state \<times> go_error option)" where
  "load impl e prefix st =
     (let (serie, st1) =
            new_series \<lparr>Name = prefix @ ''load'', Columns = [''one'', ''five'', ''fifteen''],
                        Points = []\<rparr> st
      in case load_Get e of
           Inl err \<Rightarrow> Inr (chan_send None st1, Some err)
         | Inr l \<Rightarrow>
             Inr (chan_send (Some serie)
                    (add_point serie
                       [VFloat64 (load_One l), VFloat64 (load_Five l), VFloat64 (load_Fifteen l)] st1),
                  None))"

subsection \<open>network, disks\<close>

text \<open>
  The loop \<open>for i := 0; i < n; i++\<close> over the counters of a line (lines 495 to 501 and 538
  to 544): \<open>tmp[off + i]\<close> is parsed, 0 stands for what does not parse, and an index
  beyond \<open>tmp\<close> is a panic.
\<close>

function counters ::
  "env \<Rightarrow> string list \<Rightarrow> nat \<Rightarrow> nat \<Rightarrow> nat \<Rightarrow> val list \<Rightarrow> panic + val list"
where
  "counters e tmp off n i points =
     (if i < n then
        (if off + i < length tmp then
           (case Atoi e (tmp ! (off + i)) of
              Inr v \<Rightarrow> counters e tmp off n (Suc i) (points @ [VInt v])
            | Inl err \<Rightarrow> counters e tmp off n (Suc i) (points @ [VInt 0]))
         else Inl IndexOutOfRange)
      else Inr points)"
  by pat_completeness auto
termination
  by (relation "measure (\<lambda>(e, tmp, off, n, i, points). n - i)") auto

declare counters.simps [simp del]

definition network_columns :: "string list" where
  "network_columns =
     [''iface'',
      ''recv_bytes'', ''recv_packets'', ''recv_errs'',
      ''recv_drop'', ''recv_fifo'', ''recv_frame'',
      ''recv_compressed'', ''recv_multicast'',
      ''trans_bytes'', ''trans_packets'', ''trans_errs'',
      ''trans_drop'', ''trans_fifo'', ''trans_colls'',
      ''trans_carrier'', ''trans_compressed'']"

text \<open>
  The loop over the lines of \<open>/proc/net/dev\<close> (lines 475 to 504).  The result says
  whether the loop ran to its end (\<open>True\<close>) or left the function at line 486 (\<open>False\<close>).
\<close>

fun network_lines :: "env \<Rightarrow> nat \<Rightarrow> nat \<Rightarrow> string list \<Rightarrow> state \<Rightarrow> panic + (state \<times> bool)" where
  "network_lines e serie skip [] st = Inr (st, True)"
| "network_lines e serie skip (line # rest) st =
     (if 0 < skip then network_lines e serie (skip - 1) rest st
      else
        let tmp = split_colon line
        in if length tmp < 2 then Inr (st, False)
           else
             let iface = trim_spaces (tmp ! 0);
                 tmp' = Fields e (tmp ! 1)
             in case counters e tmp' 0 (length network_columns - 1) 0 [VString iface] of
                  Inl p \<Rightarrow> Inl p
                | Inr points \<Rightarrow> network_lines e serie skip rest (add_point serie points st))"

definition network :: "conv_impl \<Rightarrow> env \<Rightarrow> string \<Rightarrow> state \<Rightarrow> panic + (state \<times> go_error option)" where
  "network impl e prefix st =
     (case Open e ''/proc/net/dev'' of
        Inl err \<Rightarrow> Inr (st, Some err)
      | Inr lines \<Rightarrow>
          let (serie, st1) =
                new_series \<lparr>Name = prefix @ ''network'', Columns = network_columns, Points = []\<rparr> st
          in case network_lines e serie 2 lines st1 of
               Inl p \<Rightarrow> Inl p
             | Inr (st2, finished) \<Rightarrow>
                 if finished then diff_and_send impl serie st2
                 else Inr (chan_send None st2, None))"

definition disks_columns :: "string list" where
  "disks_columns =
     [''device'',
      ''read_ios'', ''read_merges'', ''read_sectors'', ''read_ticks'',
      ''write_ios'', ''write_merges'', ''write_sectors'', ''write_ticks'',
      ''in_flight'', ''io_ticks'', ''time_in_queue'']"

text \<open>The loop over the lines of \<open>/proc/diskstats\<close> (lines 528 to 547).\<close>

fun disks_lines :: "env \<Rightarrow> nat \<Rightarrow> string list \<Rightarrow> state \<Rightarrow> panic + (state \<times> bool)" where
  "disks_lines e serie [] st = Inr (st, True)"
| "disks_lines e serie (line # rest) st =
     (let tmp = Fields e line
      in if length tmp < 14 then Inr (st, False)
         else
           case counters e tmp 3 (length disks_columns - 1) 0 [VString (tmp ! 2)] of
             Inl p \<Rightarrow> Inl p
           | Inr points \<Rightarrow> disks_lines e serie rest (add_point serie points st))"

definition disks :: "conv_impl \<Rightarrow> env \<Rightarrow> string \<Rightarrow> state \<Rightarrow> panic + (state \<times> go_error option)" where
  "disks impl e prefix st =
     (case Open e ''/proc/diskstats'' of
        Inl err \<Rightarrow> Inr (st, Some err)
      | Inr lines \<Rightarrow>
          let (serie, st1) =
                new_series \<lparr>Name = prefix @ ''disks'', Columns = disks_columns, Points = []\<rparr> st
          in case disks_lines e serie lines st1 of
               Inl p \<Rightarrow> Inl p
             | Inr (st2, finished) \<Rightarrow>
                 if finished then diff_and_send impl serie st2
                 else Inr (chan_send None st2, None))"

subsection \<open>mounts\<close>

definition sysfs :: "string list" where
  "sysfs =
     [''binfmt_misc'', ''cgroup'', ''configfs'', ''debugfs'', ''devpts'', ''devtmpfs'',
      ''efivarfs'', ''fusectl'', ''mqueue'', ''none'', ''proc'', ''rootfs'', ''securityfs'',
      ''sysfs'', ''rpc_pipefs'', ''fuse.gvfsd-fuse'', ''tmpfs'']"

text \<open>
  The loop over the lines of \<open>/proc/mounts\<close> (lines 570 to 587).  The result carries the
  error of \<open>syscall.Statfs\<close> when the function was left at line 579.
\<close>

fun mounts_lines :: "env \<Rightarrow> nat \<Rightarrow> string list \<Rightarrow> state \<Rightarrow> panic + (state \<times> go_error option)" where
  "mounts_lines e serie [] st = Inr (st, None)"
| "mounts_lines e serie (line # rest) st =
     (let tmp = Fields e line
      in if length tmp \<le> 2 then Inl IndexOutOfRange
         else if \<not> stringInSlice (tmp ! 2) sysfs \<and> tmp ! 0 \<noteq> ''none'' then
           (case Statfs e (tmp ! 1) of
              Inl err \<Rightarrow> Inr (st, Some err)
            | Inr fs \<Rightarrow>
                let freeBytes = Bfree fs * Bsize fs;
                    totalBytes = Blocks fs * Bsize fs
                in mounts_lines e serie rest
                     (add_point serie
                        [VString (tmp ! 1), VString (tmp ! 0), VUint64 freeBytes, VUint64 totalBytes]
                        st))
         else mounts_lines e serie rest st)"

definition mounts :: "conv_impl \<Rightarrow> env \<Rightarrow> string \<Rightarrow> state \<Rightarrow> panic + (state \<times> go_error option)" where
  "mounts impl e prefix st =
     (let (serie, st1) =
            new_series \<lparr>Name = prefix @ ''mounts'',
                        Columns = [''mountpoint'', ''disk'', ''free'', ''total''],
                        Points = []\<rparr> st
      in case Open e ''/proc/mounts'' of
           Inl err \<Rightarrow> Inr (st1, Some err)
         | Inr lines \<Rightarrow>
             (case mounts_lines e serie lines st1 of
                Inl p \<Rightarrow> Inl p
              | Inr (st2, Some err) \<Rightarrow> Inr (st2, Some err)
              | Inr (st2, None) \<Rightarrow> Inr (chan_send (Some serie) st2, None)))"

section \<open>The orchestrator: the loop of main (lines 188 to 247)\<close>

text \<open>
  The flags the loop reads, after line 186.  \<open>daemonIntervalFlag\<close> is a duration in
  nanoseconds.  The client is not nil exactly when \<open>databaseFlag\<close> is not empty (lines 129
  to 154).
\<close>

record flags =
  daemonFlag :: bool
  fqdnFlag :: bool
  daemonIntervalFlag :: int
  prefixFlag :: string
  databaseFlag :: string
  verboseFlag :: string

text \<open>The entries of \<open>collectList\<close> (lines 157 to 182) and the call of an entry.\<close>

datatype GatherFunc =
  F_cpu | F_cpus | F_mem | F_swap | F_uptime | F_load | F_network | F_disks | F_mounts

fun call ::
  "GatherFunc \<Rightarrow> conv_impl \<Rightarrow> env \<Rightarrow> string \<Rightarrow> state \<Rightarrow> panic + (state \<times> go_error option)"
where
  "call F_cpu = cpu"
| "call F_cpus = cpus"
| "call F_mem = mem"
| "call F_swap = swap"
| "call F_uptime = uptime"
| "call F_load = load"
| "call F_network = network"
| "call F_disks = disks"
| "call F_mounts = mounts"

text \<open>
  What the process does that can be seen from outside: it starts the goroutines of a
  lap, prints the tables (as text or as JSON), writes them to the server, writes a
  message to the standard error, sleeps.
\<close>

datatype event =
    Launched nat
  | PrettyPrinted "series list"
  | JsonPrinted "series list"
  | Written "series list"
  | Stderr string
  | Slept int

text \<open>
  How a run of the loop ends: the loop is left, the receive at line 204 waits for a
  value that no goroutine will send, a goroutine panics, or the loop is still running
  when the modelled laps are used up.
\<close>

datatype outcome = Exited | Blocked | Crashed panic | Running

text \<open>
  Lines 199 to 201.  The goroutines of a lap run one after the other, each to its end,
  in the order of \<open>collectList\<close>: one of the schedules of the program.  The error a
  sampler returns is dropped by the \<open>go\<close> statement.
\<close>

fun launch :: "conv_impl \<Rightarrow> env \<Rightarrow> string \<Rightarrow> GatherFunc list \<Rightarrow> state \<Rightarrow> panic + state" where
  "launch impl e prefix [] st = Inr st"
| "launch impl e prefix (cl # cls) st =
     (case call cl impl e prefix st of
        Inl p \<Rightarrow> Inl p
      | Inr (st', err) \<Rightarrow> launch impl e prefix cls st')"

text \<open>
  Lines 203 to 214: \<open>i\<close> values are received.  \<open>None\<close> when the channel is empty after all
  goroutines have ended: the receive never returns.
\<close>

fun fan_in :: "bool \<Rightarrow> nat \<Rightarrow> state \<Rightarrow> nat list \<Rightarrow> bool \<Rightarrow> (state \<times> nat list \<times> bool) option" where
  "fan_in daemon 0 st data first = Some (st, data, first)"
| "fan_in daemon (Suc i) st data first =
     (case ch st of
        [] \<Rightarrow> None
      | res # rest \<Rightarrow>
          (case res of
             Some p \<Rightarrow> fan_in daemon i (st\<lparr>ch := rest\<rparr>) (data @ [p]) first
           | None \<Rightarrow> fan_in daemon i (st\<lparr>ch := rest\<rparr>) data (if \<not> daemon then True else first)))"

text \<open>Lines 217 to 224: the fqdn column is added to every table of the batch, in place.\<close>

definition add_fqdn :: "string \<Rightarrow> series \<Rightarrow> series" where
  "add_fqdn f s =
     s\<lparr>Columns := Columns s @ [''fqdn''], Points := map (\<lambda>value. value @ [VString f]) (Points s)\<rparr>"

fun add_fqdn_all :: "string \<Rightarrow> nat list \<Rightarrow> series list \<Rightarrow> series list" where
  "add_fqdn_all f [] h = h"
| "add_fqdn_all f (p # ps) h = add_fqdn_all f ps (h[p := add_fqdn f (h ! p)])"

text \<open>\<open>send\<close> (lines 276 to 278); \<open>client\<close> stands for \<open>client.WriteSeries\<close>.\<close>

definition send :: "(series list \<Rightarrow> go_error option) \<Rightarrow> series list \<Rightarrow> go_error option" where
  "send client batch = client batch"

text \<open>
  Lines 216 to 242, for a lap with \<open>first\<close> false; \<open>lower\<close> is \<open>strings.ToLower\<close>.
\<close>

definition emit ::
  "(series list \<Rightarrow> go_error option) \<Rightarrow> (string \<Rightarrow> string) \<Rightarrow> env \<Rightarrow> flags \<Rightarrow> nat list \<Rightarrow> state
     \<Rightarrow> state \<times> event list"
where
  "emit client lower e fl data st =
     (let h = (if fqdnFlag fl then add_fqdn_all (getFqdn e) data (heap (globals st))
               else heap (globals st));
          st' = st\<lparr>globals := (globals st)\<lparr>heap := h\<rparr>\<rparr>;
          batch = map (\<lambda>p. h ! p) data;
          shown = (if databaseFlag fl = [] \<or> verboseFlag fl \<noteq> []
                   then (if lower (verboseFlag fl) = ''text'' \<or> verboseFlag fl = []
                         then [PrettyPrinted batch] else [JsonPrinted batch])
                   else []);
          sent = (if databaseFlag fl \<noteq> []
                  then Written batch #
                       (case send client batch of None \<Rightarrow> [] | Some err \<Rightarrow> [Stderr (err @ [CHR 0x0A])])
                  else [])
      in (st', shown @ sent))"

text \<open>
  The loop \<open>for first || daemonFlag\<close>.  Each lap takes the environment of that lap from
  the list; the result is what the process did and how the run ended.
\<close>

fun main_loop ::
  "conv_impl \<Rightarrow> (series list \<Rightarrow> go_error option) \<Rightarrow> (string \<Rightarrow> string) \<Rightarrow> flags
     \<Rightarrow> GatherFunc list \<Rightarrow> env list \<Rightarrow> state \<Rightarrow> bool \<Rightarrow> event list \<times> outcome"
where
  "main_loop impl client lower fl collectList [] st first =
     ([], if first \<or> daemonFlag fl then Running else Exited)"
| "main_loop impl client lower fl collectList (e # es) st first =
     (if first \<or> daemonFlag fl then
        (case launch impl e (prefixFlag fl) collectList st of
           Inl p \<Rightarrow> ([Launched (length collectList)], Crashed p)
         | Inr st1 \<Rightarrow>
             (case fan_in (daemonFlag fl) (length collectList) st1 [] False of
                None \<Rightarrow> ([Launched (length collectList)], Blocked)
              | Some (st2, data, first') \<Rightarrow>
                  let (st3, shown) = (if \<not> first' then emit client lower e fl data st2 else (st2, []));
                      slept = (if daemonFlag fl \<or> first' then [Slept (daemonIntervalFlag fl)] else []);
                      (evs, out) = main_loop impl client lower fl collectList es st3 first'
                  in (Launched (length collectList) # shown @ slept @ evs, out)))
      else ([], Exited))"

subsection \<open>Vocabulary for the properties of DiffFromLast\<close>

text \<open>
  \<open>row_of ls i\<close> is \<open>last_series[name][i]\<close> after line 295 (an absent row reads as the
  empty row).  A cell \<open>(i, j)\<close> has a previous value when the cache holds one at that
  place (the else branch at line 303); \<open>tmp_of\<close> is the value of \<open>tmp\<close> after lines 299
  to 306.
\<close>

definition row_of :: "val list list \<Rightarrow> nat \<Rightarrow> val list" where
  "row_of ls k = (if k < length ls then ls ! k else [])"

definition has_prev :: "val list list \<Rightarrow> nat \<Rightarrow> nat \<Rightarrow> bool" where
  "has_prev ls i j = (i < length ls \<and> j < length (ls ! i))"

definition tmp_row :: "val list \<Rightarrow> val list \<Rightarrow> nat \<Rightarrow> val" where
  "tmp_row lrow prow k = (if k < length lrow then lrow ! k else prow ! k)"

definition tmp_of :: "val list list \<Rightarrow> val list list \<Rightarrow> nat \<Rightarrow> nat \<Rightarrow> val" where
  "tmp_of ls pts i j = (if has_prev ls i j then ls ! i ! j else pts ! i ! j)"

text \<open>The dynamic type of a cell, and tables whose cells agree in type wherever both
  have a cell.\<close>

datatype go_type =
    TInt8 | TInt16 | TInt32 | TInt64 | TUint8 | TUint16 | TUint32 | TUint64
  | TInt | TUint | TString | TFloat64 | TNil

fun type_of :: "val \<Rightarrow> go_type" where
  "type_of (VInt8 x) = TInt8"
| "type_of (VInt16 x) = TInt16"
| "type_of (VInt32 x) = TInt32"
| "type_of (VInt64 x) = TInt64"
| "type_of (VUint8 x) = TUint8"
| "type_of (VUint16 x) = TUint16"
| "type_of (VUint32 x) = TUint32"
| "type_of (VUint64 x) = TUint64"
| "type_of (VInt x) = TInt"
| "type_of (VUint x) = TUint"
| "type_of (VString s) = TString"
| "type_of (VFloat64 x) = TFloat64"
| "type_of VNil = TNil"

definition types_agree :: "val list list \<Rightarrow> val list list \<Rightarrow> bool" where
  "types_agree ls pts =
     list_all (\<lambda>(lrow, prow). list_all (\<lambda>(x, y). type_of x = type_of y) (zip lrow prow))
       (zip ls pts)"

text \<open>
  The lines of \<open>/proc/mounts\<close> that pass the test at line 574, and the row that lines 575
  to 585 build for such a line (no row when \<open>syscall.Statfs\<close> fails).
\<close>

definition mounts_kept :: "env \<Rightarrow> string \<Rightarrow> bool" where
  "mounts_kept e line =
     (let tmp = Fields e line in \<not> stringInSlice (tmp ! 2) sysfs \<and> tmp ! 0 \<noteq> ''none'')"

definition mounts_point :: "env \<Rightarrow> string \<Rightarrow> val list" where
  "mounts_point e line =
     (let tmp = Fields e line
      in case Statfs e (tmp ! 1) of
           Inl err \<Rightarrow> []
         | Inr fs \<Rightarrow>
             [VString (tmp ! 1), VString (tmp ! 0), VUint64 (Bfree fs * Bsize fs),
              VUint64 (Blocks fs * Bsize fs)])"

subsection \<open>Example states\<close>

text \<open>
  An implementation whose out-of-range conversions give 0, and states of the scenarios
  used below.  \<open>cpu_lap1\<close> is the first lap of the cpu sampler on a host named
  \<open>host\<close>: nothing is cached and the sampled table lies at address 0.  \<open>cpu_lap2\<close> is
  the second lap: the cache holds the raw row of the first lap (total 100) and the new
  table has total 150.
\<close>

definition impl_zero :: conv_impl where
  "impl_zero sg wd x = 0"

definition cpu_lap1 :: world where
  "cpu_lap1 =
     \<lparr>consistencyFactor = Finite 1 0,
      last_series = Map.empty,
      heap = [\<lparr>Name = ''host.cpu'', Columns = cpu_columns,
               Points = [[VString ''cpu'', VUint64 10, VUint64 0, VUint64 5, VUint64 80,
                          VUint64 5, VUint64 100]]\<rparr>]\<rparr>"

definition cpu_lap1_after :: world where
  "cpu_lap1_after =
     \<lparr>consistencyFactor = Finite 1 0,
      last_series = [''host.cpu'' \<mapsto>
        [[VString ''cpu'', VUint64 10, VUint64 0, VUint64 5, VUint64 80, VUint64 5, VUint64 100]]],
      heap = [\<lparr>Name = ''host.cpu'', Columns = cpu_columns,
               Points = [[VString ''cpu'', VUint64 0, VUint64 0, VUint64 0, VUint64 0,
                          VUint64 0, VUint64 0]]\<rparr>]\<rparr>"

definition cpu_lap2 :: "f64 \<Rightarrow> world" where
  "cpu_lap2 cf =
     \<lparr>consistencyFactor = cf,
      last_series = [''host.cpu'' \<mapsto>
        [[VString ''cpu'', VUint64 10, VUint64 0, VUint64 5, VUint64 80, VUint64 5, VUint64 100]]],
      heap = [\<lparr>Name = ''host.cpu'', Columns = cpu_columns,
               Points = [[VString ''cpu'', VUint64 15, VUint64 0, VUint64 10, VUint64 115,
                          VUint64 10, VUint64 150]]\<rparr>]\<rparr>"

definition cpu_lap2_after :: "f64 \<Rightarrow> val list \<Rightarrow> world" where
  "cpu_lap2_after cf row =
     \<lparr>consistencyFactor = cf,
      last_series = [''host.cpu'' \<mapsto>
        [[VString ''cpu'', VUint64 15, VUint64 0, VUint64 10, VUint64 115, VUint64 10, VUint64 150]]],
      heap = [\<lparr>Name = ''host.cpu'', Columns = cpu_columns, Points = [row]\<rparr>]\<rparr>"

text \<open>
  \<open>cpus_grown\<close>: the cache holds one core, the new table two (a cell with a previous
  value and cells without).
\<close>

definition cpus_grown :: world where
  "cpus_grown =
     \<lparr>consistencyFactor = Finite 1 0,
      last_series = [''host.cpus'' \<mapsto> [[VString ''cpu0'', VUint64 100]]],
      heap = [\<lparr>Name = ''host.cpus'', Columns = [''id'', ''total''],
               Points = [[VString ''cpu0'', VUint64 150], [VString ''cpu1'', VUint64 30]]\<rparr>]\<rparr>"

definition cpus_grown_after :: world where
  "cpus_grown_after =
     \<lparr>consistencyFactor = Finite 1 0,
      last_series = [''host.cpus'' \<mapsto>
        [[VString ''cpu0'', VUint64 150], [VString ''cpu1'', VUint64 30]]],
      heap = [\<lparr>Name = ''host.cpus'', Columns = [''id'', ''total''],
               Points = [[VString ''cpu0'', VUint64 50], [VString ''cpu1'', VUint64 0]]\<rparr>]\<rparr>"

text \<open>\<open>disks_empty\<close>: the disks table of a host without block devices, never seen before.\<close>

definition disks_empty :: world where
  "disks_empty =
     \<lparr>consistencyFactor = Finite 1 0,
      last_series = Map.empty,
      heap = [\<lparr>Name = ''host.disks'', Columns = disks_columns, Points = []\<rparr>]\<rparr>"

definition disks_empty_after :: world where
  "disks_empty_after =
     \<lparr>consistencyFactor = Finite 1 0,
      last_series = [''host.disks'' \<mapsto> []],
      heap = [\<lparr>Name = ''host.disks'', Columns = disks_columns, Points = []\<rparr>]\<rparr>"

text \<open>
  \<open>net_shrunk\<close>: the cache holds two interfaces; the table at address 0 shows only the
  first, the table at address 1 (a later lap) shows both again.
\<close>

definition net_shrunk :: world where
  "net_shrunk =
     \<lparr>consistencyFactor = Finite 1 0,
      last_series = [''host.network'' \<mapsto>
        [[VString ''eth0'', VInt 10], [VString ''eth1'', VInt 20]]],
      heap = [\<lparr>Name = ''host.network'', Columns = [''iface'', ''recv_bytes''],
               Points = [[VString ''eth0'', VInt 15]]\<rparr>,
              \<lparr>Name = ''host.network'', Columns = [''iface'', ''recv_bytes''],
               Points = [[VString ''eth0'', VInt 18], [VString ''eth1'', VInt 50]]\<rparr>]\<rparr>"

definition net_shrunk_mid :: world where
  "net_shrunk_mid =
     \<lparr>consistencyFactor = Finite 1 0,
      last_series = [''host.network'' \<mapsto>
        [[VString ''eth0'', VInt 15], [VString ''eth1'', VInt 20]]],
      heap = [\<lparr>Name = ''host.network'', Columns = [''iface'', ''recv_bytes''],
               Points = [[VString ''eth0'', VInt 5]]\<rparr>,
              \<lparr>Name = ''host.network'', Columns = [''iface'', ''recv_bytes''],
               Points = [[VString ''eth0'', VInt 18], [VString ''eth1'', VInt 50]]\<rparr>]\<rparr>"

definition net_shrunk_end :: world where
  "net_shrunk_end =
     \<lparr>consistencyFactor = Finite 1 0,
      last_series = [''host.network'' \<mapsto>
        [[VString ''eth0'', VInt 18], [VString ''eth1'', VInt 50]]],
      heap = [\<lparr>Name = ''host.network'', Columns = [''iface'', ''recv_bytes''],
               Points = [[VString ''eth0'', VInt 5]]\<rparr>,
              \<lparr>Name = ''host.network'', Columns = [''iface'', ''recv_bytes''],
               Points = [[VString ''eth0'', VInt 3], [VString ''eth1'', VInt 30]]\<rparr>]\<rparr>"

text \<open>
  What the switch leaves in a cell that is diffed against itself, when the factor is
  finite: the zero of an integer type, the cell itself otherwise.
\<close>

fun zero_delta :: "val \<Rightarrow> val" where
  "zero_delta (VInt8 x) = VInt8 0"
| "zero_delta (VInt16 x) = VInt16 0"
| "zero_delta (VInt32 x) = VInt32 0"
| "zero_delta (VInt64 x) = VInt64 0"
| "zero_delta (VUint8 x) = VUint8 0"
| "zero_delta (VUint16 x) = VUint16 0"
| "zero_delta (VUint32 x) = VUint32 0"
| "zero_delta (VUint64 x) = VUint64 0"
| "zero_delta (VInt x) = VInt 0"
| "zero_delta (VUint x) = VUint 0"
| "zero_delta (VString s) = VString s"
| "zero_delta (VFloat64 x) = VFloat64 x"
| "zero_delta VNil = VNil"

text \<open>
  States and environments of a host named \<open>host\<close>.  \<open>split_spaces\<close> is \<open>strings.Fields\<close> on
  lines whose only white space is the space character.
\<close>

fun split_spaces_acc :: "string \<Rightarrow> string \<Rightarrow> string list" where
  "split_spaces_acc w [] = (if w = [] then [] else [w])"
| "split_spaces_acc w (c # cs) =
     (if c = CHR '' '' then (if w = [] then split_spaces_acc [] cs else w # split_spaces_acc [] cs)
      else split_spaces_acc (w @ [c]) cs)"

definition split_spaces :: "string \<Rightarrow> string list" where
  "split_spaces s = split_spaces_acc [] s"

definition start_state :: state where
  "start_state =
     \<lparr>globals = \<lparr>consistencyFactor = Finite 1 0, last_series = Map.empty, heap = []\<rparr>, ch = []\<rparr>"

definition once_flags :: flags where
  "once_flags =
     \<lparr>daemonFlag = False, fqdnFlag = False, daemonIntervalFlag = 1000000000,
      prefixFlag = ''host.'', databaseFlag = [], verboseFlag = []\<rparr>"

definition host_env :: "64 word \<Rightarrow> (string \<Rightarrow> go_error + string list) \<Rightarrow> env" where
  "host_env ticks files =
     \<lparr>cpu_Get = Inr \<lparr>cpu_User = 0, cpu_Nice = 0, cpu_Sys = 0, cpu_Idle = ticks, cpu_Wait = 0,
                      cpu_Total = ticks\<rparr>,
      cpus_Get = [],
      mem_Get = Inr \<lparr>mem_Free = 2004123648, mem_Used = 6305091584, mem_ActualFree = 3761774592,
                      mem_ActualUsed = 4547440640, mem_Total = 8309215232\<rparr>,
      swap_Get = Inl ''swap: no such file or directory'',
      uptime_Get = Inr (Finite 285235 0),
      load_Get = Inr \<lparr>load_One = Finite 3 (- 4), load_Five = Finite 1 (- 3), load_Fifteen = Finite 1 (- 3)\<rparr>,
      Open = files,
      Statfs = (\<lambda>path. if path = ''/'' then Inr \<lparr>Bsize = 4096, Blocks = 1000, Bfree = 250\<rparr>
                        else Inl ''statfs: no such file or directory''),
      Fields = split_spaces,
      Atoi = (\<lambda>s. Inl ''strconv.Atoi: invalid syntax''),
      getFqdn = ''host.example.org''\<rparr>"

text \<open>
  Files of such a host: a hardened kernel on which nothing under \<open>/proc\<close> can be opened;
  a \<open>/proc/mounts\<close> with a virtual file system, a real one and a \<open>none\<close> mount; a
  \<open>/proc/mounts\<close> that names a mount point which \<open>syscall.Statfs\<close> does not find; an empty
  \<open>/proc/diskstats\<close>.  \<open>ok_client\<close> is a server that accepts every batch.
\<close>

definition no_proc :: "string \<Rightarrow> go_error + string list" where
  "no_proc path = Inl (''open '' @ path @ '': permission denied'')"

definition proc_mounts :: "string \<Rightarrow> go_error + string list" where
  "proc_mounts path =
     (if path = ''/proc/mounts''
      then Inr [''proc /proc proc rw 0 0'', ''/dev/sda2 / ext4 rw 0 0'', ''none /x ext4 rw 0 0'']
      else Inl (''open '' @ path @ '': permission denied''))"

definition stale_mounts :: "string \<Rightarrow> go_error + string list" where
  "stale_mounts path =
     (if path = ''/proc/mounts'' then Inr [''/dev/sdb1 /mnt ext4 rw 0 0'']
      else Inl (''open '' @ path @ '': permission denied''))"

definition empty_diskstats :: "string \<Rightarrow> go_error + string list" where
  "empty_diskstats path =
     (if path = ''/proc/diskstats'' then Inr []
      else Inl (''open '' @ path @ '': permission denied''))"

definition ok_client :: "series list \<Rightarrow> go_error option" where
  "ok_client batch = None"

text \<open>
  The state after the first lap of a single-shot run that collects cpu on that host,
  before the value is received: the raw row is cached, the table holds zeros and nil
  was sent.
\<close>

definition lap1_state :: state where
  "lap1_state =
     \<lparr>globals =
        \<lparr>consistencyFactor = Finite 1 0,
         last_series = [''host.cpu'' \<mapsto>
           [[VString ''cpu'', VUint64 0, VUint64 0, VUint64 0, VUint64 100, VUint64 0, VUint64 100]]],
         heap = [\<lparr>Name = ''host.cpu'', Columns = cpu_columns,
                  Points = [[VString ''cpu'', VUint64 0, VUint64 0, VUint64 0, VUint64 0, VUint64 0,
                             VUint64 0]]\<rparr>]\<rparr>,
      ch = [None]\<rparr>"

subsection \<open>Float64 and the integer types in the words of their specifications\<close>

text \<open>
  The definitions of this subsection do not follow the code of the model; they say what
  IEEE 754 and the Go specification say, about real numbers, and the lemmas further down
  prove that \<open>f64_round\<close>, \<open>f64_mul\<close>, \<open>f64_of_int\<close> and \<open>f64_trunc\<close> compute it.

  A real number is a float64 when it is \<open>M * 2 ^ E\<close> with at most 53 bits in \<open>M\<close> and the
  exponent within the range of the format (subnormal numbers included).  \<open>y\<close> is a
  float64 nearest to \<open>x\<close> when no float64 is nearer; \<open>round_nearest_even x y\<close> is the rule
  of IEEE 754 for a result below the overflow threshold: \<open>y\<close> is a nearest float64, and of
  two nearest ones the one whose significand is even (in the representation with the full
  53 bits, or with the smallest exponent).
\<close>

definition is_binary64 :: "real \<Rightarrow> bool" where
  "is_binary64 y \<longleftrightarrow>
     (\<exists>M E. \<bar>M\<bar> < 2 ^ 53 \<and> - 1074 \<le> E \<and> E \<le> 971 \<and> y = of_int M * 2 powi E)"

definition nearest_binary64 :: "real \<Rightarrow> real \<Rightarrow> bool" where
  "nearest_binary64 x y \<longleftrightarrow> is_binary64 y \<and> (\<forall>z. is_binary64 z \<longrightarrow> \<bar>x - y\<bar> \<le> \<bar>x - z\<bar>)"

definition even_binary64 :: "real \<Rightarrow> bool" where
  "even_binary64 y \<longleftrightarrow>
     (\<exists>M E. even M \<and> \<bar>M\<bar> < 2 ^ 53 \<and> - 1074 \<le> E \<and> E \<le> 971
            \<and> (2 ^ 52 \<le> \<bar>M\<bar> \<or> E = - 1074) \<and> y = of_int M * 2 powi E)"

definition round_nearest_even :: "real \<Rightarrow> real \<Rightarrow> bool" where
  "round_nearest_even x y \<longleftrightarrow>
     nearest_binary64 x y \<and> (\<forall>z. nearest_binary64 x z \<and> z \<noteq> y \<longrightarrow> even_binary64 y)"

text \<open>The conversion of a float64 to an integer type discards the fraction (truncation
  towards zero).\<close>

definition toward_zero :: "real \<Rightarrow> int" where
  "toward_zero y = (if 0 \<le> y then \<lfloor>y\<rfloor> else \<lceil>y\<rceil>)"

text \<open>
  The number an integer cell holds, whether its type is signed, and its width.
  \<open>wrap sg w z\<close> is the value of the integer \<open>z\<close> in the type of that signedness and width:
  \<open>z\<close> modulo \<open>2 ^ w\<close>, taken in the range of the type.
\<close>

fun int_value :: "val \<Rightarrow> int" where
  "int_value (VInt8 x) = sint x"
| "int_value (VInt16 x) = sint x"
| "int_value (VInt32 x) = sint x"
| "int_value (VInt64 x) = sint x"
| "int_value (VUint8 x) = uint x"
| "int_value (VUint16 x) = uint x"
| "int_value (VUint32 x) = uint x"
| "int_value (VUint64 x) = uint x"
| "int_value (VInt x) = sint x"
| "int_value (VUint x) = uint x"
| "int_value (VString s) = 0"
| "int_value (VFloat64 x) = 0"
| "int_value VNil = 0"

fun integer_type :: "go_type \<Rightarrow> bool" where
  "integer_type TString = False"
| "integer_type TFloat64 = False"
| "integer_type TNil = False"
| "integer_type T = True"

fun signed_type :: "go_type \<Rightarrow> bool" where
  "signed_type TInt8 = True"
| "signed_type TInt16 = True"
| "signed_type TInt32 = True"
| "signed_type TInt64 = True"
| "signed_type TInt = True"
| "signed_type T = False"

fun width_of :: "go_type \<Rightarrow> nat" where
  "width_of TInt8 = 8"
| "width_of TInt16 = 16"
| "width_of TInt32 = 32"
| "width_of TInt64 = 64"
| "width_of TUint8 = 8"
| "width_of TUint16 = 16"
| "width_of TUint32 = 32"
| "width_of TUint64 = 64"
| "width_of TInt = 64"
| "width_of TUint = 64"
| "width_of T = 0"

definition wrap :: "bool \<Rightarrow> nat \<Rightarrow> int \<Rightarrow> int" where
  "wrap sg w z = (if sg then (z + 2 ^ (w - 1)) mod 2 ^ w - 2 ^ (w - 1) else z mod 2 ^ w)"

text \<open>
  \<open>one_cell cf old new\<close>: a table of one cell whose cached value is \<open>old\<close> and whose new
  raw value is \<open>new\<close>, under the factor \<open>cf\<close>; \<open>one_cell_after cf new out\<close> is the state in
  which the cache holds \<open>new\<close> and the cell \<open>out\<close>.  \<open>per_minute\<close> is the float64 nearest
  to \<open>1 / 60\<close>, the factor of a run with the default consistency of one second and
  \<open>-i 1m\<close>.
\<close>

definition one_cell :: "f64 \<Rightarrow> val \<Rightarrow> val \<Rightarrow> world" where
  "one_cell cf old new =
     \<lparr>consistencyFactor = cf,
      last_series = [''t'' \<mapsto> [[old]]],
      heap = [\<lparr>Name = ''t'', Columns = [''c''], Points = [[new]]\<rparr>]\<rparr>"

definition one_cell_after :: "f64 \<Rightarrow> val \<Rightarrow> val \<Rightarrow> world" where
  "one_cell_after cf new out =
     \<lparr>consistencyFactor = cf,
      last_series = [''t'' \<mapsto> [[new]]],
      heap = [\<lparr>Name = ''t'', Columns = [''c''], Points = [[out]]\<rparr>]\<rparr>"

definition per_minute :: f64 where
  "per_minute = Finite 4803839602528529 (- 58)"

section \<open>Properties of the two iterations\<close>


lemma inner_loop_done:
  "\<not> j < length prow \<Longrightarrow> inner_loop impl cf j lrow prow nc = Inr (lrow, prow, nc)"
  by (subst inner_loop.simps) simp

lemma inner_loop_new:
  "j < length prow \<Longrightarrow> length lrow \<le> j \<Longrightarrow>
   inner_loop impl cf j lrow prow nc =
     (case diff_switch impl cf (prow ! j) (prow ! j) of
        Inl e \<Rightarrow> Inl e
      | Inr v \<Rightarrow> inner_loop impl cf (Suc j) (lrow @ [prow ! j]) (prow[j := v]) True)"
  by (subst inner_loop.simps) simp

lemma inner_loop_old:
  "j < length prow \<Longrightarrow> j < length lrow \<Longrightarrow>
   inner_loop impl cf j lrow prow nc =
     (case diff_switch impl cf (prow ! j) (lrow ! j) of
        Inl e \<Rightarrow> Inl e
      | Inr v \<Rightarrow> inner_loop impl cf (Suc j) (lrow[j := prow ! j]) (prow[j := v]) nc)"
  by (subst inner_loop.simps) simp

lemma inner_loop_props:
  assumes "inner_loop impl cf j L P nc = Inr (L', P', nc')" and "j \<le> length L"
  shows "length P' = length P \<and> length L' = max (length L) (length P)
       \<and> (\<forall>k. j \<le> k \<and> k < length P \<longrightarrow> L' ! k = P ! k)
       \<and> (\<forall>k. k < length L \<and> (k < j \<or> length P \<le> k) \<longrightarrow> L' ! k = L ! k)
       \<and> (\<forall>k. k < j \<and> k < length P \<longrightarrow> P' ! k = P ! k)
       \<and> (\<forall>k. j \<le> k \<and> k < length P \<longrightarrow> diff_switch impl cf (P ! k) (tmp_row L P k) = Inr (P' ! k))
       \<and> (nc' = (nc \<or> length L < length P))"
  using assms
proof (induction n \<equiv> "length P - j" arbitrary: j L P nc)
  case 0
  then have "\<not> j < length P" by simp
  with 0 show ?case by (auto simp: inner_loop_done)
next
  case (Suc n)
  then have jlt: "j < length P" by simp
  show ?case
  proof (cases "length L \<le> j")
    case True
    with Suc.prems have len: "length L = j" by simp
    from Suc.prems jlt True obtain v where
      v: "diff_switch impl cf (P ! j) (P ! j) = Inr v" and
      rec: "inner_loop impl cf (Suc j) (L @ [P ! j]) (P[j := v]) True = Inr (L', P', nc')"
      by (auto simp: inner_loop_new split: sum.splits)
    have n: "n = length (P[j := v]) - Suc j" using Suc.hyps(2) by simp
    have le: "Suc j \<le> length (L @ [P ! j])" using len by simp
    note IH = Suc.hyps(1)[OF n rec le]
    have 1: "length P' = length P" using IH by simp
    have 2: "length L' = max (length L) (length P)" using IH jlt len by simp
    have 3: "L' ! k = P ! k" if "j \<le> k" "k < length P" for k
    proof (cases "k = j")
      case True
      then have "L' ! k = (L @ [P ! j]) ! k" using IH len by simp
      then show ?thesis using True len by (simp add: nth_append)
    next
      case False
      then have "L' ! k = (P[j := v]) ! k" using IH that by simp
      then show ?thesis using False by simp
    qed
    have 4: "L' ! k = L ! k" if "k < length L" "k < j \<or> length P \<le> k" for k
    proof -
      have "L' ! k = (L @ [P ! j]) ! k" using IH that len by simp
      then show ?thesis using that by (simp add: nth_append)
    qed
    have 5: "P' ! k = P ! k" if "k < j" "k < length P" for k
    proof -
      have "P' ! k = (P[j := v]) ! k" using IH that by simp
      then show ?thesis using that by simp
    qed
    have 6: "diff_switch impl cf (P ! k) (tmp_row L P k) = Inr (P' ! k)" if "j \<le> k" "k < length P" for k
    proof (cases "k = j")
      case True
      have "P' ! j = (P[j := v]) ! j" using IH jlt by simp
      then show ?thesis using True v jlt len by (simp add: tmp_row_def)
    next
      case False
      then have "diff_switch impl cf (P[j := v] ! k) (tmp_row (L @ [P ! j]) (P[j := v]) k) = Inr (P' ! k)"
        using IH that by simp
      then show ?thesis using False that len by (simp add: tmp_row_def)
    qed
    have 7: "nc' = (nc \<or> length L < length P)" using IH jlt len by simp
    show ?thesis using 1 2 3 4 5 6 7 by blast
  next
    case False
    then have lt: "j < length L" by simp
    from Suc.prems jlt lt obtain v where
      v: "diff_switch impl cf (P ! j) (L ! j) = Inr v" and
      rec: "inner_loop impl cf (Suc j) (L[j := P ! j]) (P[j := v]) nc = Inr (L', P', nc')"
      by (auto simp: inner_loop_old split: sum.splits)
    have n: "n = length (P[j := v]) - Suc j" using Suc.hyps(2) by simp
    have le: "Suc j \<le> length (L[j := P ! j])" using lt by simp
    note IH = Suc.hyps(1)[OF n rec le]
    have 1: "length P' = length P" using IH by simp
    have 2: "length L' = max (length L) (length P)" using IH by simp
    have 3: "L' ! k = P ! k" if "j \<le> k" "k < length P" for k
    proof (cases "k = j")
      case True
      then have "L' ! k = (L[j := P ! j]) ! k" using IH lt by simp
      then show ?thesis using True lt by simp
    next
      case False
      then have "L' ! k = (P[j := v]) ! k" using IH that by simp
      then show ?thesis using False by simp
    qed
    have 4: "L' ! k = L ! k" if "k < length L" "k < j \<or> length P \<le> k" for k
    proof -
      have "L' ! k = (L[j := P ! j]) ! k" using IH that by auto
      then show ?thesis using that jlt by auto
    qed
    have 5: "P' ! k = P ! k" if "k < j" "k < length P" for k
    proof -
      have "P' ! k = (P[j := v]) ! k" using IH that by simp
      then show ?thesis using that by simp
    qed
    have 6: "diff_switch impl cf (P ! k) (tmp_row L P k) = Inr (P' ! k)" if "j \<le> k" "k < length P" for k
    proof (cases "k = j")
      case True
      have "P' ! j = (P[j := v]) ! j" using IH jlt by simp
      then show ?thesis using True v jlt lt by (simp add: tmp_row_def)
    next
      case False
      then have "diff_switch impl cf (P[j := v] ! k) (tmp_row (L[j := P ! j]) (P[j := v]) k) = Inr (P' ! k)"
        using IH that by simp
      then show ?thesis using False that by (auto simp: tmp_row_def split: if_splits)
    qed
    have 7: "nc' = (nc \<or> length L < length P)" using IH by simp
    show ?thesis using 1 2 3 4 5 6 7 by blast
  qed
qed


lemma inner_loop_returns:
  assumes "j \<le> length L"
    and "\<forall>k. j \<le> k \<and> k < length P \<longrightarrow> (\<exists>v. diff_switch impl cf (P ! k) (tmp_row L P k) = Inr v)"
  shows "\<exists>r. inner_loop impl cf j L P nc = Inr r"
  using assms
proof (induction n \<equiv> "length P - j" arbitrary: j L P nc)
  case 0
  then show ?case by (simp add: inner_loop_done)
next
  case (Suc n)
  then have jlt: "j < length P" by simp
  from Suc.prems(2) jlt obtain v where v: "diff_switch impl cf (P ! j) (tmp_row L P j) = Inr v"
    by blast
  have n: "n = length (P[j := v]) - Suc j" using Suc.hyps(2) by simp
  show ?case
  proof (cases "length L \<le> j")
    case True
    with Suc.prems have len: "length L = j" by simp
    have le: "Suc j \<le> length (L @ [P ! j])" using len by simp
    have ok: "\<forall>k. Suc j \<le> k \<and> k < length (P[j := v]) \<longrightarrow>
        (\<exists>u. diff_switch impl cf (P[j := v] ! k) (tmp_row (L @ [P ! j]) (P[j := v]) k) = Inr u)"
    proof (intro allI impI)
      fix k assume k: "Suc j \<le> k \<and> k < length (P[j := v])"
      then obtain u where "diff_switch impl cf (P ! k) (tmp_row L P k) = Inr u"
        using Suc.prems(2) by (metis Suc_leD length_list_update)
      moreover have "tmp_row (L @ [P ! j]) (P[j := v]) k = tmp_row L P k"
        using k len by (simp add: tmp_row_def)
      ultimately show "\<exists>u. diff_switch impl cf (P[j := v] ! k) (tmp_row (L @ [P ! j]) (P[j := v]) k) = Inr u"
        using k by simp
    qed
    from Suc.hyps(1)[OF n le ok] show ?thesis
      using v jlt True by (simp add: inner_loop_new tmp_row_def)
  next
    case False
    then have lt: "j < length L" by simp
    have le: "Suc j \<le> length (L[j := P ! j])" using lt by simp
    have ok: "\<forall>k. Suc j \<le> k \<and> k < length (P[j := v]) \<longrightarrow>
        (\<exists>u. diff_switch impl cf (P[j := v] ! k) (tmp_row (L[j := P ! j]) (P[j := v]) k) = Inr u)"
    proof (intro allI impI)
      fix k assume k: "Suc j \<le> k \<and> k < length (P[j := v])"
      then obtain u where "diff_switch impl cf (P ! k) (tmp_row L P k) = Inr u"
        using Suc.prems(2) by (metis Suc_leD length_list_update)
      moreover have "tmp_row (L[j := P ! j]) (P[j := v]) k = tmp_row L P k"
        using k by (simp add: tmp_row_def)
      ultimately show "\<exists>u. diff_switch impl cf (P[j := v] ! k) (tmp_row (L[j := P ! j]) (P[j := v]) k) = Inr u"
        using k by simp
    qed
    from Suc.hyps(1)[OF n le ok] show ?thesis
      using v jlt lt by (simp add: inner_loop_old tmp_row_def)
  qed
qed

lemma outer_loop_done:
  "\<not> i < length pts \<Longrightarrow> outer_loop impl cf i ls pts nc = Inr (ls, pts, nc)"
  by (subst outer_loop.simps) simp

lemma outer_loop_props:
  assumes "outer_loop impl cf i ls pts nc = Inr (ls', pts', nc')" and "i \<le> length ls"
  shows "length pts' = length pts \<and> length ls' = max (length ls) (length pts)
       \<and> (\<forall>k. i \<le> k \<and> k < length pts \<longrightarrow>
            (\<exists>n1 n2. inner_loop impl cf 0 (row_of ls k) (pts ! k) n1 = Inr (ls' ! k, pts' ! k, n2)))
       \<and> (\<forall>k. k < length ls \<and> (k < i \<or> length pts \<le> k) \<longrightarrow> ls' ! k = ls ! k)
       \<and> (\<forall>k. k < i \<and> k < length pts \<longrightarrow> pts' ! k = pts ! k)
       \<and> (nc' = (nc \<or> (\<exists>k. i \<le> k \<and> k < length pts \<and> length (row_of ls k) < length (pts ! k))))"
  using assms
proof (induction n \<equiv> "length pts - i" arbitrary: i ls pts nc)
  case 0
  then have "\<not> i < length pts" by simp
  with 0 show ?case by (auto simp: outer_loop_done)
next
  case (Suc n)
  then have ilt: "i < length pts" by simp
  define row where "row = row_of ls i"
  have step: "outer_loop impl cf i ls pts nc =
     (case inner_loop impl cf 0 row (pts ! i) nc of
        Inl e \<Rightarrow> Inl e
      | Inr (lrow, prow, nc') \<Rightarrow>
          outer_loop impl cf (Suc i) ((if length ls \<le> i then ls @ [[]] else ls)[i := lrow]) (pts[i := prow]) nc')"
    using ilt Suc.prems(2) by (subst outer_loop.simps) (auto simp: row_def row_of_def nth_append)
  define ls1 where "ls1 = (if length ls \<le> i then ls @ [[]] else ls)"
  from Suc.prems(1) step obtain lrow prow nc1 where
    inner: "inner_loop impl cf 0 row (pts ! i) nc = Inr (lrow, prow, nc1)" and
    rec: "outer_loop impl cf (Suc i) (ls1[i := lrow]) (pts[i := prow]) nc1 = Inr (ls', pts', nc')"
    by (auto simp: ls1_def split: sum.splits)
  have len1: "length ls1 = max (length ls) (Suc i)" "i < length ls1"
    using Suc.prems(2) by (auto simp: ls1_def)
  have n: "n = length (pts[i := prow]) - Suc i" using Suc.hyps(2) by simp
  have le: "Suc i \<le> length (ls1[i := lrow])" using len1 by simp
  note IH = Suc.hyps(1)[OF n rec le]
  from inner_loop_props[OF inner] have nc1: "nc1 = (nc \<or> length row < length (pts ! i))" by simp
  have ls1_nth: "ls1 ! k = ls ! k" if "k < length ls" for k
    using that by (simp add: ls1_def nth_append)
  have row_later: "row_of (ls1[i := lrow]) k = row_of ls k" if "Suc i \<le> k" for k
    using that Suc.prems(2) by (auto simp: row_of_def ls1_def nth_append)
  have 1: "length pts' = length pts" using IH by simp
  have 2: "length ls' = max (length ls) (length pts)" using IH len1 ilt by auto
  have 3: "\<exists>n1 n2. inner_loop impl cf 0 (row_of ls k) (pts ! k) n1 = Inr (ls' ! k, pts' ! k, n2)"
    if ik: "i \<le> k" and kl: "k < length pts" for k
  proof (cases "k = i")
    case True
    have "ls' ! i = (ls1[i := lrow]) ! i" using IH len1 by simp
    moreover have "pts' ! i = (pts[i := prow]) ! i" using IH ilt by simp
    ultimately show ?thesis using True inner len1 ilt by (auto simp: row_def)
  next
    case False
    then have k: "Suc i \<le> k" using ik by simp
    from IH have "Suc i \<le> k \<and> k < length (pts[i := prow]) \<longrightarrow>
        (\<exists>n1 n2. inner_loop impl cf 0 (row_of (ls1[i := lrow]) k) (pts[i := prow] ! k) n1 = Inr (ls' ! k, pts' ! k, n2))"
      by blast
    then obtain n1 n2 where
      "inner_loop impl cf 0 (row_of (ls1[i := lrow]) k) (pts[i := prow] ! k) n1 = Inr (ls' ! k, pts' ! k, n2)"
      using k kl by auto
    then show ?thesis using row_later[OF k] False by auto
  qed
  have 4: "ls' ! k = ls ! k" if "k < length ls" "k < i \<or> length pts \<le> k" for k
  proof -
    have "ls' ! k = (ls1[i := lrow]) ! k" using IH that len1 ilt by auto
    then show ?thesis using that ilt ls1_nth by auto
  qed
  have 5: "pts' ! k = pts ! k" if "k < i" "k < length pts" for k
  proof -
    have "pts' ! k = (pts[i := prow]) ! k" using IH that by simp
    then show ?thesis using that by simp
  qed
  have 6: "nc' = (nc \<or> (\<exists>k. i \<le> k \<and> k < length pts \<and> length (row_of ls k) < length (pts ! k)))"
  proof -
    have "nc' = (nc1 \<or> (\<exists>k. Suc i \<le> k \<and> k < length pts \<and> length (row_of (ls1[i := lrow]) k) < length (pts[i := prow] ! k)))"
      using IH by simp
    also have "\<dots> = (nc1 \<or> (\<exists>k. Suc i \<le> k \<and> k < length pts \<and> length (row_of ls k) < length (pts ! k)))"
      using row_later by auto
    also have "\<dots> = (nc \<or> (\<exists>k. i \<le> k \<and> k < length pts \<and> length (row_of ls k) < length (pts ! k)))"
      unfolding nc1 row_def using ilt by (metis Suc_leI le_neq_implies_less order_refl Suc_le_lessD less_imp_le_nat)
    finally show ?thesis .
  qed
  show ?case using 1 2 3 4 5 6 by blast
qed


lemma diff_switch_same_type:
  "type_of tmp = type_of cur \<Longrightarrow> \<exists>v. diff_switch impl cf cur tmp = Inr v"
  by (cases cur; cases tmp; simp)

lemma outer_loop_returns:
  assumes "i \<le> length ls"
    and "\<forall>k. i \<le> k \<and> k < length pts \<longrightarrow> (\<forall>m. m < length (pts ! k) \<longrightarrow>
           (\<exists>v. diff_switch impl cf (pts ! k ! m) (tmp_row (row_of ls k) (pts ! k) m) = Inr v))"
  shows "\<exists>r. outer_loop impl cf i ls pts nc = Inr r"
  using assms
proof (induction n \<equiv> "length pts - i" arbitrary: i ls pts nc)
  case 0
  then show ?case by (simp add: outer_loop_done)
next
  case (Suc n)
  then have ilt: "i < length pts" by simp
  define row where "row = row_of ls i"
  define ls1 where "ls1 = (if length ls \<le> i then ls @ [[]] else ls)"
  have step: "outer_loop impl cf i ls pts nc =
     (case inner_loop impl cf 0 row (pts ! i) nc of
        Inl e \<Rightarrow> Inl e
      | Inr (lrow, prow, nc') \<Rightarrow> outer_loop impl cf (Suc i) (ls1[i := lrow]) (pts[i := prow]) nc')"
    using ilt Suc.prems(1) unfolding ls1_def
    by (subst outer_loop.simps) (auto simp: row_def row_of_def nth_append)
  have "\<forall>k. 0 \<le> k \<and> k < length (pts ! i) \<longrightarrow>
          (\<exists>v. diff_switch impl cf (pts ! i ! k) (tmp_row row (pts ! i) k) = Inr v)"
    using Suc.prems(2) ilt unfolding row_def by auto
  then obtain lrow prow nc1 where
    inner: "inner_loop impl cf 0 row (pts ! i) nc = Inr (lrow, prow, nc1)"
    using inner_loop_returns[of 0 row "pts ! i" impl cf nc] by auto
  have len1: "i < length ls1" using Suc.prems(1) by (auto simp: ls1_def)
  have n: "n = length (pts[i := prow]) - Suc i" using Suc.hyps(2) by simp
  have le: "Suc i \<le> length (ls1[i := lrow])" using len1 by simp
  have row_later: "row_of (ls1[i := lrow]) k = row_of ls k" if "Suc i \<le> k" for k
    using that Suc.prems(1) by (auto simp: row_of_def ls1_def nth_append)
  have ok: "\<forall>k. Suc i \<le> k \<and> k < length (pts[i := prow]) \<longrightarrow> (\<forall>m. m < length (pts[i := prow] ! k) \<longrightarrow>
           (\<exists>v. diff_switch impl cf (pts[i := prow] ! k ! m) (tmp_row (row_of (ls1[i := lrow]) k) (pts[i := prow] ! k) m) = Inr v))"
  proof (intro allI impI)
    fix k m assume k: "Suc i \<le> k \<and> k < length (pts[i := prow])" and m: "m < length (pts[i := prow] ! k)"
    then have "pts[i := prow] ! k = pts ! k" by simp
    moreover have "row_of (ls1[i := lrow]) k = row_of ls k" using row_later k by simp
    moreover have "\<exists>v. diff_switch impl cf (pts ! k ! m) (tmp_row (row_of ls k) (pts ! k) m) = Inr v"
      using Suc.prems(2) k m by (metis Suc_leD length_list_update calculation(1))
    ultimately show "\<exists>v. diff_switch impl cf (pts[i := prow] ! k ! m) (tmp_row (row_of (ls1[i := lrow]) k) (pts[i := prow] ! k) m) = Inr v"
      by simp
  qed
  from Suc.hyps(1)[OF n le ok] show ?case using step inner by simp
qed

lemma tmp_of_row: "tmp_row (row_of ls i) (pts ! i) j = tmp_of ls pts i j"
  by (simp add: tmp_row_def row_of_def tmp_of_def has_prev_def)

lemma types_agree_nth:
  "types_agree ls pts \<Longrightarrow> i < length pts \<Longrightarrow> j < length (pts ! i) \<Longrightarrow> has_prev ls i j \<Longrightarrow>
   type_of (ls ! i ! j) = type_of (pts ! i ! j)"
  by (auto simp: types_agree_def has_prev_def list_all_length)

lemma DiffFromLast_Inr:
  assumes "DiffFromLast impl w (Some p) = Inr (w', r)"
  shows "\<exists>ls' pts' nc.
      p < length (heap w)
    \<and> outer_loop impl (consistencyFactor w) 0 (rows_of w (Name (heap w ! p))) (Points (heap w ! p)) False
        = Inr (ls', pts', nc)
    \<and> w' = w\<lparr>last_series := (last_series w)(Name (heap w ! p) \<mapsto> ls'),
              heap := (heap w)[p := (heap w ! p)\<lparr>Points := pts'\<rparr>]\<rparr>
    \<and> r = (if nc then None else Some p)"
proof -
  from assms have p: "p < length (heap w)"
    by (auto simp: DiffFromLast_def split: if_splits)
  with assms obtain ls' pts' nc where
    run: "outer_loop impl (consistencyFactor w) 0 (rows_of w (Name (heap w ! p))) (Points (heap w ! p)) False
        = Inr (ls', pts', nc)"
    by (auto simp: DiffFromLast_def Let_def split: sum.splits)
  show ?thesis
    using assms p run
    by (intro exI[of _ ls'] exI[of _ pts'] exI[of _ nc]) (auto simp: DiffFromLast_def Let_def)
qed

lemma DiffFromLast_returns:
  assumes "p < length (heap w)"
    and "types_agree (rows_of w (Name (heap w ! p))) (Points (heap w ! p))"
  shows "\<exists>w' r. DiffFromLast impl w (Some p) = Inr (w', r)"
proof -
  let ?ls = "rows_of w (Name (heap w ! p))" and ?pts = "Points (heap w ! p)"
  have "\<forall>k. 0 \<le> k \<and> k < length ?pts \<longrightarrow> (\<forall>m. m < length (?pts ! k) \<longrightarrow>
           (\<exists>v. diff_switch impl (consistencyFactor w) (?pts ! k ! m) (tmp_row (row_of ?ls k) (?pts ! k) m) = Inr v))"
  proof (intro allI impI)
    fix k m assume k: "0 \<le> k \<and> k < length ?pts" and m: "m < length (?pts ! k)"
    have "type_of (tmp_of ?ls ?pts k m) = type_of (?pts ! k ! m)"
      using types_agree_nth[OF assms(2)] k m by (simp add: tmp_of_def)
    then show "\<exists>v. diff_switch impl (consistencyFactor w) (?pts ! k ! m) (tmp_row (row_of ?ls k) (?pts ! k) m) = Inr v"
      by (simp add: tmp_of_row diff_switch_same_type)
  qed
  then obtain r where "outer_loop impl (consistencyFactor w) 0 ?ls ?pts False = Inr r"
    using outer_loop_returns[of 0 ?ls ?pts impl "consistencyFactor w" False] by auto
  then show ?thesis using assms(1) by (cases r) (auto simp: DiffFromLast_def Let_def)
qed


lemma new_cell_iff:
  "(\<exists>k. k < length pts \<and> length (row_of ls k) < length (pts ! k))
   \<longleftrightarrow> (\<exists>i j. i < length pts \<and> j < length (pts ! i) \<and> \<not> has_prev ls i j)"
proof
  assume "\<exists>k. k < length pts \<and> length (row_of ls k) < length (pts ! k)"
  then obtain k where k: "k < length pts" "length (row_of ls k) < length (pts ! k)" by blast
  have "\<not> has_prev ls k (length (row_of ls k))"
    by (simp add: has_prev_def row_of_def)
  with k show "\<exists>i j. i < length pts \<and> j < length (pts ! i) \<and> \<not> has_prev ls i j" by blast
next
  assume "\<exists>i j. i < length pts \<and> j < length (pts ! i) \<and> \<not> has_prev ls i j"
  then obtain i j where ij: "i < length pts" "j < length (pts ! i)" "\<not> has_prev ls i j" by blast
  then have "length (row_of ls i) \<le> j" by (auto simp: has_prev_def row_of_def)
  with ij show "\<exists>k. k < length pts \<and> length (row_of ls k) < length (pts ! k)"
    by (metis le_less_trans)
qed

lemma DiffFromLast_effect:
  assumes run: "DiffFromLast impl w (Some p) = Inr (w', r)"
  defines "s \<equiv> heap w ! p"
  defines "ls \<equiv> rows_of w (Name s)" and "pts \<equiv> Points s"
  defines "ls' \<equiv> rows_of w' (Name s)" and "pts' \<equiv> Points (heap w' ! p)"
  shows "p < length (heap w)"
    and "consistencyFactor w' = consistencyFactor w"
    and "heap w' = (heap w)[p := s\<lparr>Points := pts'\<rparr>]"
    and "last_series w' = (last_series w)(Name s \<mapsto> ls')"
    and "length pts' = length pts"
    and "length ls' = max (length ls) (length pts)"
    and "\<And>i. i < length pts \<Longrightarrow> length (pts' ! i) = length (pts ! i)"
    and "\<And>i. i < length pts \<Longrightarrow> length (ls' ! i) = max (length (row_of ls i)) (length (pts ! i))"
    and "\<And>i j. i < length pts \<Longrightarrow> j < length (pts ! i) \<Longrightarrow> ls' ! i ! j = pts ! i ! j"
    and "\<And>i j. i < length pts \<Longrightarrow> j < length (pts ! i) \<Longrightarrow>
           diff_switch impl (consistencyFactor w) (pts ! i ! j) (tmp_of ls pts i j) = Inr (pts' ! i ! j)"
    and "\<And>i. i < length ls \<Longrightarrow> length pts \<le> i \<Longrightarrow> ls' ! i = ls ! i"
    and "\<And>i j. i < length pts \<Longrightarrow> has_prev ls i j \<Longrightarrow> length (pts ! i) \<le> j \<Longrightarrow> ls' ! i ! j = ls ! i ! j"
    and "r = (if \<exists>i j. i < length pts \<and> j < length (pts ! i) \<and> \<not> has_prev ls i j then None else Some p)"
proof -
  from DiffFromLast_Inr[OF run] obtain L' P' nc where
    p: "p < length (heap w)" and
    outer: "outer_loop impl (consistencyFactor w) 0 ls pts False = Inr (L', P', nc)" and
    w': "w' = w\<lparr>last_series := (last_series w)(Name s \<mapsto> L'), heap := (heap w)[p := s\<lparr>Points := P'\<rparr>]\<rparr>" and
    r: "r = (if nc then None else Some p)"
    unfolding s_def ls_def pts_def by blast
  have L': "ls' = L'" by (simp add: ls'_def w' rows_of_def)
  have P': "pts' = P'" using p by (simp add: pts'_def w')
  note O = outer_loop_props[OF outer, simplified]
  show "p < length (heap w)" by (rule p)
  show "consistencyFactor w' = consistencyFactor w" by (simp add: w')
  show "heap w' = (heap w)[p := s\<lparr>Points := pts'\<rparr>]" by (simp add: w' P')
  show "last_series w' = (last_series w)(Name s \<mapsto> ls')" by (simp add: w' L')
  show "length pts' = length pts" using O by (simp add: P')
  show "length ls' = max (length ls) (length pts)" using O by (simp add: L')
  have inner: "\<exists>n1 n2. inner_loop impl (consistencyFactor w) 0 (row_of ls i) (pts ! i) n1 = Inr (ls' ! i, pts' ! i, n2)"
    if "i < length pts" for i
    using O that by (simp add: L' P')
  have I: "length (pts' ! i) = length (pts ! i) \<and> length (ls' ! i) = max (length (row_of ls i)) (length (pts ! i))
       \<and> (\<forall>k. k < length (pts ! i) \<longrightarrow> ls' ! i ! k = pts ! i ! k)
       \<and> (\<forall>k. k < length (row_of ls i) \<and> length (pts ! i) \<le> k \<longrightarrow> ls' ! i ! k = row_of ls i ! k)
       \<and> (\<forall>k. k < length (pts ! i) \<longrightarrow>
             diff_switch impl (consistencyFactor w) (pts ! i ! k) (tmp_row (row_of ls i) (pts ! i) k) = Inr (pts' ! i ! k))"
    if i: "i < length pts" for i
  proof -
    from inner[OF i] obtain n1 n2 where
      "inner_loop impl (consistencyFactor w) 0 (row_of ls i) (pts ! i) n1 = Inr (ls' ! i, pts' ! i, n2)"
      by blast
    from inner_loop_props[OF this] show ?thesis by simp
  qed
  show "\<And>i. i < length pts \<Longrightarrow> length (pts' ! i) = length (pts ! i)" using I by blast
  show "\<And>i. i < length pts \<Longrightarrow> length (ls' ! i) = max (length (row_of ls i)) (length (pts ! i))"
    using I by blast
  show "\<And>i j. i < length pts \<Longrightarrow> j < length (pts ! i) \<Longrightarrow> ls' ! i ! j = pts ! i ! j"
    using I by blast
  show "\<And>i j. i < length pts \<Longrightarrow> j < length (pts ! i) \<Longrightarrow>
           diff_switch impl (consistencyFactor w) (pts ! i ! j) (tmp_of ls pts i j) = Inr (pts' ! i ! j)"
    using I by (simp add: tmp_of_row)
  show "\<And>i. i < length ls \<Longrightarrow> length pts \<le> i \<Longrightarrow> ls' ! i = ls ! i"
    using O by (simp add: L')
  show "\<And>i j. i < length pts \<Longrightarrow> has_prev ls i j \<Longrightarrow> length (pts ! i) \<le> j \<Longrightarrow> ls' ! i ! j = ls ! i ! j"
  proof -
    fix i j assume a: "i < length pts" "has_prev ls i j" "length (pts ! i) \<le> j"
    then have "j < length (row_of ls i)" "row_of ls i ! j = ls ! i ! j"
      by (auto simp: has_prev_def row_of_def)
    with I[OF a(1)] a(3) show "ls' ! i ! j = ls ! i ! j" by simp
  qed
  have "nc = (\<exists>k. k < length pts \<and> length (row_of ls k) < length (pts ! k))" using O by simp
  then show "r = (if \<exists>i j. i < length pts \<and> j < length (pts ! i) \<and> \<not> has_prev ls i j then None else Some p)"
    unfolding r new_cell_iff by simp
qed


lemma outer_loop_step:
  "i < length pts \<Longrightarrow>
   outer_loop impl cf i ls pts nc =
     (let ls' = (if length ls \<le> i then ls @ [[]] else ls)
      in if i < length ls' then
           (case inner_loop impl cf 0 (ls' ! i) (pts ! i) nc of
              Inl e \<Rightarrow> Inl e
            | Inr (lrow, prow, nc') \<Rightarrow>
                outer_loop impl cf (Suc i) (ls'[i := lrow]) (pts[i := prow]) nc')
         else Inl IndexOutOfRange)"
  by (subst outer_loop.simps) simp

lemmas run_simps =
  DiffFromLast_def rows_of_def Let_def outer_loop_step outer_loop_done
  inner_loop_new inner_loop_old inner_loop_done
  scale_unsigned_def scale_signed_def f64_of_int_def f64_round_def f64_to_int_def
  representable_def f64_trunc_def round_even_def bitlen.simps

lemma scale_signed_zero: "scale_signed impl (Finite m e) 0 = 0"
  by (simp add: scale_signed_def f64_of_int_def f64_round_def f64_to_int_def
      representable_def f64_trunc_def)

lemma scale_unsigned_zero: "scale_unsigned impl (Finite m e) 0 = 0"
  by (simp add: scale_unsigned_def f64_of_int_def f64_round_def f64_to_int_def
      representable_def f64_trunc_def)

lemma diff_switch_self:
  "diff_switch impl (Finite m e) c c = Inr (zero_delta c)"
  by (cases c) (simp_all add: scale_signed_zero scale_unsigned_zero)

lemma bitlen_le: "n < 2 ^ k \<Longrightarrow> bitlen n \<le> int k"
proof (induction k arbitrary: n)
  case 0
  then show ?case by (subst bitlen.simps) simp
next
  case (Suc k)
  show ?case
  proof (cases "n \<le> 0")
    case True
    then show ?thesis by (subst bitlen.simps) simp
  next
    case False
    have "n div 2 < 2 ^ k" using Suc.prems by simp
    from Suc.IH[OF this] False show ?thesis by (subst bitlen.simps) simp
  qed
qed

lemmas sampler_simps =
  cpu_def cpus_def mem_def swap_def uptime_def load_def network_def disks_def mounts_def
  new_series_def add_point_def chan_send_def diff_and_send_def cpu_row_def cpu_columns_def
  emit_def send_def

lemma fan_in_all:
  "length vs = n \<Longrightarrow> ch st = vs @ rest \<Longrightarrow>
   fan_in daemon n st data first
     = Some (st\<lparr>ch := rest\<rparr>, data @ map the (filter (\<lambda>v. v \<noteq> None) vs),
             first \<or> (\<not> daemon \<and> None \<in> set vs))"
proof (induction vs arbitrary: n st data first)
  case Nil
  then show ?case by simp
next
  case (Cons v vs)
  then obtain m where n: "n = Suc m" "length vs = m" by (cases n) auto
  have rest: "ch (st\<lparr>ch := vs @ rest\<rparr>) = vs @ rest" by simp
  show ?case
  proof (cases v)
    case None
    with Cons.prems n Cons.IH[OF n(2) rest, of data "(if \<not> daemon then True else first)"]
    show ?thesis by auto
  next
    case (Some p)
    with Cons.prems n Cons.IH[OF n(2) rest, of "data @ [p]" first]
    show ?thesis by auto
  qed
qed

lemma main_loop_starts_lap:
  "\<exists>evs out. main_loop impl client lower fl cl (e # es) st True = (Launched (length cl) # evs, out)"
  by (auto split: sum.splits option.splits prod.splits)

lemma mounts_lines_props:
  assumes "mounts_lines e p lines st = Inr (st', r)"
  shows "ch st' = ch st \<and> last_series (globals st') = last_series (globals st)
       \<and> consistencyFactor (globals st') = consistencyFactor (globals st)
       \<and> (r = None \<longrightarrow> p < length (heap (globals st)) \<longrightarrow>
            heap (globals st') = (heap (globals st))
              [p := (heap (globals st) ! p)
                 \<lparr>Points := Points (heap (globals st) ! p)
                    @ map (mounts_point e) (filter (mounts_kept e) lines)\<rparr>])"
  using assms
proof (induction lines arbitrary: st)
  case Nil
  then show ?case by simp
next
  case (Cons line lines)
  let ?tmp = "Fields e line"
  from Cons.prems have len: "\<not> length ?tmp \<le> 2"
    by (auto simp: Let_def split: if_splits)
  show ?case
  proof (cases "mounts_kept e line")
    case False
    with Cons.prems len have "mounts_lines e p lines st = Inr (st', r)"
      by (auto simp: Let_def mounts_kept_def split: if_splits)
    from Cons.IH[OF this] False show ?thesis by simp
  next
    case True
    show ?thesis
    proof (cases "Statfs e (?tmp ! 1)")
      case (Inl err)
      with Cons.prems len True have "st' = st" "r = Some err"
        by (auto simp: Let_def mounts_kept_def split: if_splits)
      then show ?thesis by simp
    next
      case (Inr fs)
      let ?row = "[VString (?tmp ! 1), VString (?tmp ! 0), VUint64 (Bfree fs * Bsize fs),
              VUint64 (Blocks fs * Bsize fs)]"
      have row: "mounts_point e line = ?row" using Inr by (simp add: mounts_point_def Let_def)
      from Cons.prems len True Inr
      have rec: "mounts_lines e p lines (add_point p ?row st) = Inr (st', r)"
        by (auto simp: Let_def mounts_kept_def split: if_splits)
      note IH = Cons.IH[OF rec]
      have "ch st' = ch st" "last_series (globals st') = last_series (globals st)"
        "consistencyFactor (globals st') = consistencyFactor (globals st)"
        using IH by (simp_all add: add_point_def Let_def)
      moreover have "heap (globals st') = (heap (globals st))
              [p := (heap (globals st) ! p)
                 \<lparr>Points := Points (heap (globals st) ! p)
                    @ map (mounts_point e) (filter (mounts_kept e) (line # lines))\<rparr>]"
        if "r = None" "p < length (heap (globals st))"
        using IH that True row by (simp add: add_point_def Let_def)
      ultimately show ?thesis by blast
    qed
  qed
qed

section \<open>The float64 model computes what IEEE 754 says\<close>

text \<open>
  \<open>bitlen\<close> is the length of a positive integer in bits and \<open>round_even\<close> picks the nearer
  of the two neighbouring multiples of \<open>2 ^ k\<close>, the even one at a tie.  From these,
  \<open>f64_round m e\<close>, when finite, is the float64 that \<open>round_nearest_even\<close> assigns to
  \<open>m * 2 ^ e\<close> (\<open>f64_round_correct\<close>), it is infinite only from \<open>2 ^ 1023\<close> on
  (\<open>f64_round_overflow\<close>), that float64 is unique (\<open>round_nearest_even_unique\<close>), and
  \<open>f64_trunc\<close> is truncation towards zero (\<open>toward_zero_f64_trunc\<close>).
\<close>

lemma bitlen_pos: "0 < n \<Longrightarrow> \<exists>p::nat. bitlen n = int p + 1 \<and> 2 ^ p \<le> n \<and> n < 2 ^ Suc p"
proof (induction n rule: bitlen.induct)
  case (1 n)
  show ?case
  proof (cases "n div 2 = 0")
    case True
    with 1(2) have n1: "n = 1" by linarith
    have "bitlen 1 = 1 + bitlen 0" by (subst bitlen.simps) simp
    also have "bitlen 0 = 0" by (subst bitlen.simps) simp
    finally have "bitlen n = int 0 + 1" using n1 by simp
    then show ?thesis using n1 by (intro exI[of _ 0]) simp
  next
    case False
    with 1(2) have pos: "0 < n div 2" by linarith
    from 1(1)[OF _ pos] 1(2) obtain p where p: "bitlen (n div 2) = int p + 1"
      "2 ^ p \<le> n div 2" "n div 2 < 2 ^ Suc p" by auto
    have "bitlen n = 1 + bitlen (n div 2)" using 1(2) by (subst bitlen.simps) simp
    then have a: "bitlen n = int (Suc p) + 1" using p(1) by simp
    have b: "2 ^ Suc p \<le> n" using p(2) by (simp; linarith)
    have c: "n < 2 ^ Suc (Suc p)" using p(3) by (simp; linarith)
    show ?thesis using a b c by blast
  qed
qed

lemma toward_zero_f64_trunc: "f64_trunc m e = toward_zero (of_int m * 2 powi e)"
proof (cases "0 \<le> e")
  case True
  then have "(2 powi e :: real) = 2 ^ nat e"
    by (simp add: power_int_def)
  then have "(of_int m * 2 powi e :: real) = of_int (m * 2 ^ nat e)"
    by simp
  then show ?thesis using True unfolding f64_trunc_def toward_zero_def
    by (simp only: floor_of_int ceiling_of_int if_True if_False split: if_splits) simp
next
  case False
  then have v: "(of_int m * 2 powi e :: real) = of_int m / of_int (2 ^ nat (- e))"
    by (simp add: power_int_def field_simps)
  show ?thesis
  proof (cases "0 \<le> m")
    case True
    then have "0 \<le> (of_int m / of_int (2 ^ nat (- e)) :: real)" by simp
    then show ?thesis using False True unfolding v f64_trunc_def toward_zero_def
      by (simp only: floor_divide_of_int_eq if_True if_False) (cases "m = 0"; simp)
  next
    case neg: False
    then have "(of_int m / of_int (2 ^ nat (- e)) :: real) < 0"
      by (simp add: divide_neg_pos)
    moreover have "\<lceil>(of_int m / of_int (2 ^ nat (- e)) :: real)\<rceil> = - (\<bar>m\<bar> div 2 ^ nat (- e))"
    proof -
      have "(of_int m / of_int (2 ^ nat (- e)) :: real) = - (of_int \<bar>m\<bar> / of_int (2 ^ nat (- e)))"
        using neg by simp
      then show ?thesis unfolding ceiling_def by (simp only: minus_minus floor_divide_of_int_eq)
    qed
    ultimately show ?thesis using False neg unfolding v f64_trunc_def toward_zero_def
      by simp
  qed
qed

lemma two_powi_pos [simp]: "0 < (2::real) powi e"
  by simp

lemma two_powi_add: "(2::real) powi (a + b) = 2 powi a * 2 powi b"
  by (rule power_int_add) simp

lemma two_powi_nat: "(2::real) powi (int k) = 2 ^ k"
  by simp

lemma two_powi_mono: "a \<le> b \<Longrightarrow> (2::real) powi a \<le> 2 powi b"
  by (rule power_int_increasing) simp_all

lemma two_powi_split: "g \<le> E \<Longrightarrow> (2::real) powi E = of_int (2 ^ nat (E - g)) * 2 powi g"
proof -
  assume "g \<le> E"
  then have n: "int (nat (E - g)) = E - g" by simp
  have "(2::real) powi E = 2 powi ((E - g) + g)" by simp
  also have "\<dots> = 2 powi (E - g) * 2 powi g" by (rule two_powi_add)
  also have "(2::real) powi (E - g) = of_int (2 ^ nat (E - g))"
    using \<open>g \<le> E\<close> by (simp add: power_int_def)
  finally show ?thesis .
qed

lemma binary64_gap:
  assumes q0: "0 \<le> q0" and g: "- 1074 \<le> g" and norm: "2 ^ 52 \<le> q0 \<or> g = - 1074"
    and z: "is_binary64 z"
  shows "z \<le> of_int q0 * 2 powi g \<or> of_int (q0 + 1) * 2 powi g \<le> z"
proof -
  from z obtain M E where ME: "\<bar>M\<bar> < 2 ^ 53" "- 1074 \<le> E" "E \<le> 971" "z = of_int M * 2 powi E"
    unfolding is_binary64_def by blast
  show ?thesis
  proof (cases "g \<le> E")
    case True
    define N where "N = M * 2 ^ nat (E - g)"
    have zN: "z = of_int N * 2 powi g"
      unfolding ME(4) N_def using two_powi_split[OF True] by simp
    have "N \<le> q0 \<or> q0 + 1 \<le> N" by linarith
    then show ?thesis
    proof
      assume "N \<le> q0"
      then have "(of_int N :: real) \<le> of_int q0" by simp
      then have "of_int N * 2 powi g \<le> of_int q0 * (2::real) powi g"
        by (rule mult_right_mono) simp
      then show ?thesis unfolding zN by blast
    next
      assume "q0 + 1 \<le> N"
      then have "(of_int (q0 + 1) :: real) \<le> of_int N" by (simp only: of_int_le_iff)
      then have "of_int (q0 + 1) * 2 powi g \<le> of_int N * (2::real) powi g"
        by (rule mult_right_mono) simp
      then show ?thesis unfolding zN by blast
    qed
  next
    case False
    with ME(2) norm have big: "2 ^ 52 \<le> q0" by linarith
    from False have Eg: "E + 1 \<le> g" by simp
    have "M \<le> 2 ^ 53" using ME(1) by linarith
    then have "(of_int M :: real) \<le> of_int (2 ^ 53)" by (simp only: of_int_le_iff)
    then have "z \<le> of_int (2 ^ 53) * 2 powi E"
      unfolding ME(4) by (rule mult_right_mono) simp
    also have "\<dots> = 2 ^ 52 * (2::real) powi (E + 1)"
      by (simp add: two_powi_add)
    also have "\<dots> \<le> 2 ^ 52 * (2::real) powi g"
      by (rule mult_left_mono[OF two_powi_mono[OF Eg]]) simp
    also have "\<dots> \<le> of_int q0 * 2 powi g"
    proof (rule mult_right_mono)
      have "(of_int (2 ^ 52) :: real) \<le> of_int q0" using big by (simp only: of_int_le_iff)
      then show "(2 ^ 52 :: real) \<le> of_int q0" by simp
    qed simp
    finally show ?thesis by blast
  qed
qed

lemma bitlen_ge: "2 ^ k \<le> n \<Longrightarrow> int k + 1 \<le> bitlen n"
proof -
  assume a: "2 ^ k \<le> n"
  then have "0 < n" by (smt (verit) zero_less_power)
  from bitlen_pos[OF this] obtain p where p: "bitlen n = int p + 1" "2 ^ p \<le> n" "n < 2 ^ Suc p"
    by blast
  have "(2::int) ^ k < 2 ^ Suc p" using p(3) a by linarith
  then have "k < Suc p" by (simp only: power_strict_increasing_iff) 
  then show ?thesis using p(1) by simp
qed

lemma is_binary64I:
  "\<bar>M\<bar> < 2 ^ 53 \<Longrightarrow> - 1074 \<le> E \<Longrightarrow> E \<le> 971 \<Longrightarrow> y = of_int M * 2 powi E \<Longrightarrow> is_binary64 y"
  unfolding is_binary64_def by blast

lemma even_binary64I:
  "even M \<Longrightarrow> \<bar>M\<bar> < 2 ^ 53 \<Longrightarrow> - 1074 \<le> E \<Longrightarrow> E \<le> 971 \<Longrightarrow> 2 ^ 52 \<le> \<bar>M\<bar> \<or> E = - 1074
   \<Longrightarrow> y = of_int M * 2 powi E \<Longrightarrow> even_binary64 y"
  unfolding even_binary64_def by blast

lemma binary64_member:
  assumes q: "0 \<le> q" "q \<le> 2 ^ 53" and g: "- 1074 \<le> g" and fin: "bitlen q + g \<le> 1024"
    and norm: "2 ^ 52 \<le> q \<or> g = - 1074"
  shows "is_binary64 (of_int q * 2 powi g)"
    and "even q \<Longrightarrow> even_binary64 (of_int q * 2 powi g)"
proof -
  consider (top) "q = 2 ^ 53" | (normal) "2 ^ 52 \<le> q" "q < 2 ^ 53" | (sub) "q < 2 ^ 52" "g = - 1074"
    using q norm by linarith
  then have "is_binary64 (of_int q * 2 powi g) \<and> (even q \<longrightarrow> even_binary64 (of_int q * 2 powi g))"
  proof cases
    case top
    have "int 53 + 1 \<le> bitlen q" by (rule bitlen_ge) (simp add: top)
    with fin have g970: "g + 1 \<le> 971" by simp
    have v: "(of_int q * 2 powi g :: real) = of_int (2 ^ 52) * 2 powi (g + 1)"
      by (simp add: top two_powi_add)
    have "is_binary64 (of_int (2 ^ 52) * 2 powi (g + 1))"
      using g g970 by (intro is_binary64I[of "2 ^ 52" "g + 1"]) simp_all
    moreover have "even_binary64 (of_int (2 ^ 52) * 2 powi (g + 1))"
      using g g970 by (intro even_binary64I[of "2 ^ 52" "g + 1"]) simp_all
    ultimately show ?thesis unfolding v by blast
  next
    case normal
    have "int 52 + 1 \<le> bitlen q" by (rule bitlen_ge) (use normal in simp)
    with fin have g971: "g \<le> 971" by simp
    have "is_binary64 (of_int q * 2 powi g)"
      using g g971 normal q by (intro is_binary64I[of q g]) simp_all
    moreover have "even q \<longrightarrow> even_binary64 (of_int q * 2 powi g)"
      using g g971 normal q by (intro impI even_binary64I[of q g]) simp_all
    ultimately show ?thesis by blast
  next
    case sub
    have "is_binary64 (of_int q * 2 powi g)"
      using sub q by (intro is_binary64I[of q g]) simp_all
    moreover have "even q \<longrightarrow> even_binary64 (of_int q * 2 powi g)"
      using sub q by (intro impI even_binary64I[of q g]) simp_all
    ultimately show ?thesis by blast
  qed
  then show "is_binary64 (of_int q * 2 powi g)"
    and "even q \<Longrightarrow> even_binary64 (of_int q * 2 powi g)" by blast+
qed

lemma round_even_int:
  fixes a :: int and K :: nat
  assumes a: "0 \<le> a"
  shows "a div 2 ^ K * 2 ^ K \<le> a \<and> a < (a div 2 ^ K + 1) * 2 ^ K
    \<and> (round_even a K = a div 2 ^ K \<or> round_even a K = a div 2 ^ K + 1)
    \<and> \<bar>a - round_even a K * 2 ^ K\<bar> \<le> a - a div 2 ^ K * 2 ^ K
    \<and> \<bar>a - round_even a K * 2 ^ K\<bar> \<le> (a div 2 ^ K + 1) * 2 ^ K - a
    \<and> (a - a div 2 ^ K * 2 ^ K = (a div 2 ^ K + 1) * 2 ^ K - a \<longrightarrow> even (round_even a K))"
proof -
  define q0 where "q0 = a div 2 ^ K"
  define q where "q = round_even a K"
  define r where "r = a mod 2 ^ K"
  define P :: int where "P = 2 ^ K"
  have P: "0 < P" by (simp add: P_def)
  have r: "0 \<le> r" "r < P" by (simp_all add: r_def P_def)
  have dec: "a = q0 * P + r" unfolding q0_def r_def P_def by (rule div_mult_mod_eq[symmetric])
  have qdef: "q = (if P < 2 * r \<or> (2 * r = P \<and> odd q0) then q0 + 1 else q0)"
    by (simp add: q_def round_even_def Let_def q0_def r_def P_def)
  have e1: "(q0 + 1) * P = q0 * P + P" by (simp add: algebra_simps)
  have s1: "q0 * P \<le> a" using dec r by linarith
  have s2: "a < (q0 + 1) * P" using dec r e1 by linarith
  have s3: "q = q0 \<or> q = q0 + 1" using qdef by presburger
  have s4: "\<bar>a - q * P\<bar> \<le> a - q0 * P"
    using dec r e1 qdef by (auto split: if_splits)
  have s5: "\<bar>a - q * P\<bar> \<le> (q0 + 1) * P - a"
    using dec r e1 qdef by (auto split: if_splits)
  have s6: "even q" if "a - q0 * P = (q0 + 1) * P - a"
  proof -
    from that have "2 * r = P" using dec e1 by linarith
    then show ?thesis using qdef by auto
  qed
  show ?thesis
    using s1 s2 s3 s4 s5 s6 unfolding q0_def q_def P_def by blast
qed

lemma f64_round_unfold:
  "m \<noteq> 0 \<Longrightarrow> k = max (bitlen \<bar>m\<bar> - 53) (- 1074 - e) \<Longrightarrow>
   f64_round m e =
     (if k \<le> 0 then (if 1024 < bitlen \<bar>m\<bar> + e then Infinite (m < 0) else Finite m e)
      else if 1024 < bitlen (round_even \<bar>m\<bar> (nat k)) + (e + k) then Infinite (m < 0)
           else Finite (sgn m * round_even \<bar>m\<bar> (nat k)) (e + k))"
  by (simp add: f64_round_def Let_def)

lemma nearest_from_neighbours:
  fixes A L H Y :: real
  assumes LA: "L \<le> A" and AH: "A < H" and Y: "Y = L \<or> Y = H"
    and n1: "\<bar>A - Y\<bar> \<le> A - L" and n2: "\<bar>A - Y\<bar> \<le> H - A"
    and gap: "\<And>z. is_binary64 z \<Longrightarrow> z \<le> L \<or> H \<le> z"
    and mem: "is_binary64 Y" and tie: "A - L = H - A \<Longrightarrow> even_binary64 Y"
  shows "round_nearest_even A Y"
proof -
  have near: "\<bar>A - Y\<bar> \<le> \<bar>A - z\<bar>" if "is_binary64 z" for z
    using gap[OF that] n1 n2 by linarith
  have "even_binary64 Y" if z: "nearest_binary64 A z" "z \<noteq> Y" for z
  proof -
    from z(1) mem have le: "\<bar>A - z\<bar> \<le> \<bar>A - Y\<bar>" and bz: "is_binary64 z"
      unfolding nearest_binary64_def by blast+
    from gap[OF bz] le z(2) Y n1 n2 LA AH have "A - L = H - A" by linarith
    then show ?thesis by (rule tie)
  qed
  then show ?thesis
    unfolding round_nearest_even_def nearest_binary64_def using near mem by blast
qed

lemma round_nearest_even_self: "is_binary64 x \<Longrightarrow> round_nearest_even x x"
  unfolding round_nearest_even_def nearest_binary64_def by auto

lemma noshift_facts:
  assumes a: "0 < a" and k: "max (bitlen a - 53) (- 1074 - e) \<le> 0"
  shows "a < 2 ^ 53" and "- 1074 \<le> e"
proof -
  from bitlen_pos[OF a] obtain p where p: "bitlen a = int p + 1" "2 ^ p \<le> a" "a < 2 ^ Suc p"
    by blast
  from k have p52: "p \<le> 52" and e: "- 1074 \<le> e" unfolding p(1) by simp_all
  have "(2::int) ^ Suc p \<le> 2 ^ 53" by (rule power_increasing) (use p52 in simp_all)
  with p(3) show "a < 2 ^ 53" by linarith
  show "- 1074 \<le> e" by (rule e)
qed

lemma shift_facts:
  assumes a: "0 < a" and k: "k = max (bitlen a - 53) (- 1074 - e)" and pos: "0 < k"
  shows "0 \<le> a div 2 ^ nat k" and "a div 2 ^ nat k < 2 ^ 53"
    and "2 ^ 52 \<le> a div 2 ^ nat k \<or> e + k = - 1074" and "- 1074 \<le> e + k"
proof -
  from bitlen_pos[OF a] obtain p where p: "bitlen a = int p + 1" "2 ^ p \<le> a" "a < 2 ^ Suc p"
    by blast
  define K where "K = nat k"
  define q0 where "q0 = a div 2 ^ K"
  have K: "int K = k" using pos by (simp add: K_def)
  have kp: "k = max (int p + 1 - 53) (- 1074 - e)" unfolding k p(1) ..
  from round_even_int[of a K, OF less_imp_le[OF a], folded q0_def]
  have re: "q0 * 2 ^ K \<le> a" "a < (q0 + 1) * 2 ^ K" by blast+
  show "0 \<le> a div 2 ^ nat k" using a by (simp add: pos_imp_zdiv_nonneg_iff)
  show "a div 2 ^ nat k < 2 ^ 53"
  proof -
    have "int (Suc p) \<le> int (K + 53)" using K unfolding kp by simp
    then have "Suc p \<le> K + 53" by linarith
    then have "(2::int) ^ Suc p \<le> 2 ^ (K + 53)" by (rule power_increasing) simp
    then have "(2::int) ^ Suc p \<le> 2 ^ 53 * 2 ^ K" by (simp only: power_add mult.commute)
    with p(3) re(1) have "q0 * 2 ^ K < 2 ^ 53 * 2 ^ K" by linarith
    then show ?thesis unfolding q0_def K_def by simp
  qed
  show "2 ^ 52 \<le> a div 2 ^ nat k \<or> e + k = - 1074"
  proof (cases "- 1074 - e \<le> int p + 1 - 53")
    case True
    then have "k = int p - 52" unfolding kp by simp
    with K have "p = 52 + K" by linarith
    with p(2) have "2 ^ 52 * 2 ^ K \<le> a" by (simp add: power_add)
    with re(2) have "2 ^ 52 * 2 ^ K < (q0 + 1) * (2 ^ K :: int)" by linarith
    then have "2 ^ 52 < q0 + 1" by simp
    then show ?thesis unfolding q0_def K_def by simp
  next
    case False
    then show ?thesis unfolding kp by simp
  qed
  show "- 1074 \<le> e + k" unfolding k by simp
qed

lemma scale_by_powi:
  fixes x :: int
  assumes "0 \<le> k"
  shows "of_int x * (2::real) powi (e + k) = of_int (x * 2 ^ nat k) * 2 powi e"
proof -
  have "(2::real) powi (e + k) = of_int (2 ^ nat (e + k - e)) * 2 powi e"
    by (rule two_powi_split) (use assms in simp)
  moreover have "nat (e + k - e) = nat k" by simp
  ultimately show ?thesis by simp
qed

lemma f64_round_pos:
  assumes a: "0 < a" and fin: "f64_round a e = Finite M E"
  shows "round_nearest_even (of_int a * 2 powi e) (of_int M * 2 powi E)"
proof -
  define k where "k = max (bitlen \<bar>a\<bar> - 53) (- 1074 - e)"
  have aa: "\<bar>a\<bar> = a" "sgn a = 1" "a \<noteq> 0" using a by simp_all
  note fin' = fin[unfolded f64_round_unfold[OF aa(3) k_def] aa]
  note k = k_def[unfolded aa]
  show ?thesis
  proof (cases "k \<le> 0")
    case True
    with fin' have ME: "M = a" "E = e" and le: "bitlen a + e \<le> 1024"
      by (simp_all split: if_splits)
    from noshift_facts[OF a True[unfolded k]] have a53: "a < 2 ^ 53" and e: "- 1074 \<le> e" .
    have "is_binary64 (of_int a * 2 powi e)"
    proof (cases "e \<le> 971")
      case True
      show ?thesis by (rule is_binary64I[of a e]) (use a a53 e True in simp_all)
    next
      case False
      define s where "s = nat (e - 971)"
      have s: "int s = e - 971" using False by (simp add: s_def)
      from bitlen_pos[OF a] obtain p where p: "bitlen a = int p + 1" "a < 2 ^ Suc p"
        by blast
      have "int (Suc p + s) \<le> 53" using le s unfolding p(1) by simp
      then have "Suc p + s \<le> 53" by linarith
      then have "(2::int) ^ (Suc p + s) \<le> 2 ^ 53" by (rule power_increasing) simp
      moreover have "a * 2 ^ s < 2 ^ Suc p * 2 ^ s" using p(2) by (simp del: power_Suc)
      ultimately have "a * 2 ^ s < 2 ^ 53" by (simp only: power_add)
      then have b: "\<bar>a * 2 ^ s\<bar> < 2 ^ 53" using a by (simp add: abs_mult)
      have "(2::real) powi e = of_int (2 ^ nat (e - 971)) * 2 powi 971"
        by (rule two_powi_split) (use False in simp)
      then have v: "of_int a * 2 powi e = of_int (a * 2 ^ s) * (2::real) powi 971"
        by (simp add: s_def)
      show ?thesis
        by (rule is_binary64I[of "a * 2 ^ s" 971]) (use b v in simp_all)
    qed
    then show ?thesis unfolding ME by (rule round_nearest_even_self)
  next
    case False
    define K where "K = nat k"
    define q0 where "q0 = a div 2 ^ K"
    define q where "q = round_even a K"
    define g where "g = e + k"
    from False have kpos: "0 < k" by simp
    from fin' False have ME: "M = q" "E = g" and le: "bitlen q + g \<le> 1024"
      unfolding q_def K_def g_def by (simp_all split: if_splits)
    from round_even_int[of a K, OF less_imp_le[OF a], folded q0_def q_def]
    have re: "q0 * 2 ^ K \<le> a" "a < (q0 + 1) * 2 ^ K" "q = q0 \<or> q = q0 + 1"
      "\<bar>a - q * 2 ^ K\<bar> \<le> a - q0 * 2 ^ K" "\<bar>a - q * 2 ^ K\<bar> \<le> (q0 + 1) * 2 ^ K - a"
      "a - q0 * 2 ^ K = (q0 + 1) * 2 ^ K - a \<Longrightarrow> even q"
      by blast+
    note sf = shift_facts[OF a k kpos, folded K_def, folded q0_def g_def]
    have qq: "0 \<le> q" "q \<le> 2 ^ 53" "2 ^ 52 \<le> q \<or> g = - 1074"
      using re(3) sf by auto
    note mem = binary64_member[OF qq(1,2) sf(4) le qq(3)]
    define P :: real where "P = 2 powi e"
    have P: "0 < P" by (simp add: P_def)
    have sc: "of_int x * 2 powi g = of_int (x * 2 ^ K) * P" for x
      unfolding g_def P_def K_def by (rule scale_by_powi) (use kpos in simp)
    have up: "of_int x * P \<le> of_int y * P" if "x \<le> y" for x y :: int
      by (rule mult_right_mono) (use that P in simp_all)
    have ups: "of_int x * P < of_int y * P" if "x < y" for x y :: int
      using that P by simp
    have dist: "\<bar>of_int x * P - of_int y * P\<bar> = of_int \<bar>x - y\<bar> * P" for x y :: int
      using P by (simp add: abs_mult left_diff_distrib[symmetric] del: of_int_diff)
    have "round_nearest_even (of_int a * P) (of_int q * 2 powi g)"
    proof (rule nearest_from_neighbours[where L = "of_int q0 * 2 powi g" and H = "of_int (q0 + 1) * 2 powi g"])
      show "of_int q0 * 2 powi g \<le> of_int a * P" unfolding sc by (rule up) (rule re(1))
      show "of_int a * P < of_int (q0 + 1) * 2 powi g" unfolding sc by (rule ups) (rule re(2))
      show "of_int q * 2 powi g = of_int q0 * 2 powi g \<or> of_int q * 2 powi g = of_int (q0 + 1) * 2 powi g"
        using re(3) by auto
      show "\<bar>of_int a * P - of_int q * 2 powi g\<bar> \<le> of_int a * P - of_int q0 * 2 powi g"
      proof -
        have "of_int \<bar>a - q * 2 ^ K\<bar> * P \<le> of_int (a - q0 * 2 ^ K) * P" by (rule up) (rule re(4))
        then show ?thesis unfolding sc dist by (simp add: left_diff_distrib)
      qed
      show "\<bar>of_int a * P - of_int q * 2 powi g\<bar> \<le> of_int (q0 + 1) * 2 powi g - of_int a * P"
      proof -
        have "of_int \<bar>a - q * 2 ^ K\<bar> * P \<le> of_int ((q0 + 1) * 2 ^ K - a) * P" by (rule up) (rule re(5))
        then show ?thesis unfolding sc dist by (simp add: left_diff_distrib)
      qed
      show "z \<le> of_int q0 * 2 powi g \<or> of_int (q0 + 1) * 2 powi g \<le> z" if "is_binary64 z" for z
        by (rule binary64_gap[OF sf(1) sf(4) sf(3) that])
      show "is_binary64 (of_int q * 2 powi g)" by (rule mem(1))
      show "even_binary64 (of_int q * 2 powi g)"
        if t: "of_int a * P - of_int q0 * 2 powi g = of_int (q0 + 1) * 2 powi g - of_int a * P"
      proof -
        from t have "of_int (a - q0 * 2 ^ K) * P = of_int ((q0 + 1) * 2 ^ K - a) * P"
          unfolding sc by (simp add: left_diff_distrib)
        then have "(of_int (a - q0 * 2 ^ K) :: real) = of_int ((q0 + 1) * 2 ^ K - a)"
          using P by simp
        then have "a - q0 * 2 ^ K = (q0 + 1) * 2 ^ K - a" by (simp only: of_int_eq_iff)
        then have "even q" by (rule re(6))
        then show ?thesis by (rule mem(2))
      qed
    qed
    then show ?thesis unfolding ME P_def .
  qed
qed

lemma f64_round_pos_overflow:
  assumes a: "0 < a" and inf: "f64_round a e = Infinite s"
  shows "2 powi 1023 \<le> of_int a * (2::real) powi e"
proof -
  define k where "k = max (bitlen \<bar>a\<bar> - 53) (- 1074 - e)"
  have aa: "\<bar>a\<bar> = a" "sgn a = 1" "a \<noteq> 0" using a by simp_all
  note inf' = inf[unfolded f64_round_unfold[OF aa(3) k_def] aa]
  note k = k_def[unfolded aa]
  from bitlen_pos[OF a] obtain p where p: "bitlen a = int p + 1" "2 ^ p \<le> a" "a < 2 ^ Suc p"
    by blast
  show ?thesis
  proof (cases "k \<le> 0")
    case True
    with inf' have big: "1024 < int p + 1 + e" unfolding p(1) by (simp split: if_splits)
    have "(2::real) powi 1023 \<le> 2 powi (int p + e)" by (rule two_powi_mono) (use big in simp)
    also have "\<dots> = of_int (2 ^ p) * 2 powi e" by (simp add: two_powi_add)
    also have "\<dots> \<le> of_int a * 2 powi e"
      by (rule mult_right_mono) (use p(2) in \<open>simp_all only: of_int_le_iff two_powi_pos less_imp_le\<close>)
    finally show ?thesis .
  next
    case False
    define K where "K = nat k"
    define q0 where "q0 = a div 2 ^ K"
    define q where "q = round_even a K"
    define g where "g = e + k"
    from False have kpos: "0 < k" by simp
    from inf' False have big: "1024 < bitlen q + g"
      unfolding q_def K_def g_def by (simp split: if_splits)
    from round_even_int[of a K, OF less_imp_le[OF a], folded q0_def q_def]
    have re: "q0 * 2 ^ K \<le> a" "q = q0 \<or> q = q0 + 1" by blast+
    note sf = shift_facts[OF a k kpos, folded K_def, folded q0_def g_def]
    have "bitlen q \<le> int 54"
    proof (cases "0 < q")
      case True
      show ?thesis by (rule bitlen_le) (use re(2) sf(2) in auto)
    next
      case False
      then show ?thesis by (subst bitlen.simps) simp
    qed
    with big have g971: "971 \<le> g" by simp
    with sf(3) have q52: "2 ^ 52 \<le> q0" by simp
    have "(2::real) powi 1023 = of_int (2 ^ 52) * 2 powi 971" by (simp add: power_int_def)
    also have "\<dots> \<le> of_int (2 ^ 52) * 2 powi g"
      by (rule mult_left_mono[OF two_powi_mono[OF g971]]) simp
    also have "\<dots> \<le> of_int q0 * 2 powi g"
      by (rule mult_right_mono) (use q52 in \<open>simp_all only: of_int_le_iff two_powi_pos less_imp_le\<close>)
    also have "\<dots> = of_int (q0 * 2 ^ K) * 2 powi e"
      unfolding g_def K_def by (rule scale_by_powi) (use kpos in simp)
    also have "\<dots> \<le> of_int a * 2 powi e"
      by (rule mult_right_mono) (use re(1) in \<open>simp_all only: of_int_le_iff two_powi_pos less_imp_le\<close>)
    finally show ?thesis .
  qed
qed

lemma is_binary64_minus: "is_binary64 (- y) = is_binary64 y"
proof -
  have "is_binary64 (- y)" if "is_binary64 y" for y
  proof -
    from that obtain M E where "\<bar>M\<bar> < 2 ^ 53" "- 1074 \<le> E" "E \<le> 971" "y = of_int M * 2 powi E"
      unfolding is_binary64_def by blast
    then show ?thesis by (intro is_binary64I[of "- M" E]) simp_all
  qed
  from this[of y] this[of "- y"] show ?thesis by auto
qed

lemma even_binary64_minus: "even_binary64 (- y) = even_binary64 y"
proof -
  have "even_binary64 (- y)" if "even_binary64 y" for y
  proof -
    from that obtain M E where "even M" "\<bar>M\<bar> < 2 ^ 53" "- 1074 \<le> E" "E \<le> 971"
      "2 ^ 52 \<le> \<bar>M\<bar> \<or> E = - 1074" "y = of_int M * 2 powi E"
      unfolding even_binary64_def by blast
    then show ?thesis by (intro even_binary64I[of "- M" E]) simp_all
  qed
  from this[of y] this[of "- y"] show ?thesis by auto
qed

lemma nearest_binary64_minus: "nearest_binary64 (- x) (- y) = nearest_binary64 x y"
proof -
  have "nearest_binary64 (- x) (- y)" if n: "nearest_binary64 x y" for x y
    unfolding nearest_binary64_def
  proof (intro conjI allI impI)
    show "is_binary64 (- y)" using n unfolding nearest_binary64_def is_binary64_minus by blast
    fix z assume "is_binary64 z"
    then have "is_binary64 (- z)" unfolding is_binary64_minus .
    with n have "\<bar>x - y\<bar> \<le> \<bar>x - (- z)\<bar>" unfolding nearest_binary64_def by blast
    then show "\<bar>- x - - y\<bar> \<le> \<bar>- x - z\<bar>" by linarith
  qed
  from this[of x y] this[of "- x" "- y"] show ?thesis by auto
qed

lemma round_nearest_even_minus: "round_nearest_even (- x) (- y) = round_nearest_even x y"
proof -
  have "round_nearest_even (- x) (- y)" if r: "round_nearest_even x y" for x y
    unfolding round_nearest_even_def
  proof (intro conjI allI impI)
    show "nearest_binary64 (- x) (- y)"
      using r unfolding round_nearest_even_def nearest_binary64_minus by blast
    fix z assume z: "nearest_binary64 (- x) z \<and> z \<noteq> - y"
    then have "nearest_binary64 x (- z)" using nearest_binary64_minus[of x "- z"] by simp
    moreover have "- z \<noteq> y" using z by auto
    ultimately have "even_binary64 y" using r unfolding round_nearest_even_def by blast
    then show "even_binary64 (- y)" unfolding even_binary64_minus .
  qed
  from this[of x y] this[of "- x" "- y"] show ?thesis by auto
qed

lemma f64_round_uminus:
  assumes a: "0 < a"
  shows "f64_round (- a) e = Finite M E \<Longrightarrow> f64_round a e = Finite (- M) E"
    and "f64_round (- a) e = Infinite s \<Longrightarrow> f64_round a e = Infinite False"
proof -
  define k where "k = max (bitlen a - 53) (- 1074 - e)"
  have n: "- a \<noteq> 0" "\<bar>- a\<bar> = a" "sgn (- a) = - 1" "- a < 0" and p: "a \<noteq> 0" "\<bar>a\<bar> = a" "sgn a = 1" "\<not> a < 0"
    using a by simp_all
  have kn: "k = max (bitlen \<bar>- a\<bar> - 53) (- 1074 - e)" and kp: "k = max (bitlen \<bar>a\<bar> - 53) (- 1074 - e)"
    unfolding k_def n p by simp_all
  show "f64_round (- a) e = Finite M E \<Longrightarrow> f64_round a e = Finite (- M) E"
    unfolding f64_round_unfold[OF n(1) kn] f64_round_unfold[OF p(1) kp] n p
    using a by (simp split: if_splits)
  show "f64_round (- a) e = Infinite s \<Longrightarrow> f64_round a e = Infinite False"
    unfolding f64_round_unfold[OF n(1) kn] f64_round_unfold[OF p(1) kp] n p
    using a by (simp split: if_splits)
qed

lemma f64_round_not_NaN: "f64_round m e \<noteq> NaN"
  by (simp add: f64_round_def Let_def)

lemma zero_is_binary64: "is_binary64 0"
  by (rule is_binary64I[of 0 0]) simp_all

lemma f64_round_correct:
  assumes "f64_round m e = Finite M E"
  shows "round_nearest_even (of_int m * 2 powi e) (of_int M * 2 powi E)"
proof -
  consider "m = 0" | "0 < m" | "m < 0" by linarith
  then show ?thesis
  proof cases
    case 1
    with assms have "M = 0" by (simp add: f64_round_def)
    with 1 show ?thesis using round_nearest_even_self[OF zero_is_binary64] by simp
  next
    case 2
    then show ?thesis using assms by (rule f64_round_pos)
  next
    case 3
    define a where "a = - m"
    have a: "0 < a" and m: "m = - a" using 3 by (simp_all add: a_def)
    from f64_round_uminus(1)[OF a assms[unfolded m]]
    have "round_nearest_even (of_int a * 2 powi e) (of_int (- M) * 2 powi E)"
      by (rule f64_round_pos[OF a])
    then have "round_nearest_even (- (of_int m * 2 powi e)) (- (of_int M * 2 powi E))"
      unfolding m by simp
    then show ?thesis unfolding round_nearest_even_minus .
  qed
qed

lemma f64_round_overflow:
  assumes "f64_round m e = Infinite s"
  shows "2 powi 1023 \<le> \<bar>of_int m * (2::real) powi e\<bar>"
proof -
  consider "m = 0" | "0 < m" | "m < 0" by linarith
  then show ?thesis
  proof cases
    case 1
    with assms show ?thesis by (simp add: f64_round_def)
  next
    case 2
    from f64_round_pos_overflow[OF 2 assms] show ?thesis by linarith
  next
    case 3
    define a where "a = - m"
    have a: "0 < a" and m: "m = - a" using 3 by (simp_all add: a_def)
    from f64_round_pos_overflow[OF a f64_round_uminus(2)[OF a assms[unfolded m]]]
    show ?thesis unfolding m by simp
  qed
qed

lemma nearest_of_huge:
  assumes n: "nearest_binary64 x y" and x: "2 powi 1023 \<le> \<bar>x\<bar>"
  shows "2 powi 1023 \<le> \<bar>y\<bar>"
proof -
  have B: "is_binary64 (2 powi 1023)"
    by (rule is_binary64I[of "2 ^ 52" 971]) (simp_all add: power_int_def)
  then have B': "is_binary64 (- (2 powi 1023))" unfolding is_binary64_minus .
  from n B have "\<bar>x - y\<bar> \<le> \<bar>x - 2 powi 1023\<bar>" unfolding nearest_binary64_def by blast
  moreover from n B' have "\<bar>x - y\<bar> \<le> \<bar>x - (- (2 powi 1023))\<bar>" unfolding nearest_binary64_def by blast
  ultimately show ?thesis using x by linarith
qed

lemma round_nearest_even_unique:
  assumes y: "round_nearest_even x y" and y': "round_nearest_even x y'"
  shows "y = y'"
proof (rule ccontr)
  assume ne: "y \<noteq> y'"
  have main: False
    if r: "round_nearest_even x u" "round_nearest_even x v" and lt: "u < v" and nn: "0 \<le> u"
    for x u v
  proof -
    from r have nu: "nearest_binary64 x u" and nv: "nearest_binary64 x v"
      unfolding round_nearest_even_def by blast+
    with r lt have eu: "even_binary64 u" and ev: "even_binary64 v"
      unfolding round_nearest_even_def by (metis less_irrefl)+
    from nu nv have d: "\<bar>x - u\<bar> = \<bar>x - v\<bar>" unfolding nearest_binary64_def
      by (meson order_antisym)
    have none: "\<not> (u < z \<and> z < v)" if "is_binary64 z" for z
    proof
      assume "u < z \<and> z < v"
      with d lt have "\<bar>x - z\<bar> < \<bar>x - u\<bar>" by linarith
      moreover from nu that have "\<bar>x - u\<bar> \<le> \<bar>x - z\<bar>" unfolding nearest_binary64_def by blast
      ultimately show False by linarith
    qed
    from eu obtain M E where u: "even M" "\<bar>M\<bar> < 2 ^ 53" "- 1074 \<le> E" "E \<le> 971"
      "2 ^ 52 \<le> \<bar>M\<bar> \<or> E = - 1074" "u = of_int M * 2 powi E"
      unfolding even_binary64_def by blast
    from ev obtain M' E' where v: "even M'" "\<bar>M'\<bar> < 2 ^ 53" "- 1074 \<le> E'" "E' \<le> 971"
      "2 ^ 52 \<le> \<bar>M'\<bar> \<or> E' = - 1074" "v = of_int M' * 2 powi E'"
      unfolding even_binary64_def by blast
    have Mnn: "0 \<le> M"
    proof (rule ccontr)
      assume "\<not> 0 \<le> M"
      then have "(of_int M :: real) < 0" by simp
      then have "of_int M * (2::real) powi E < 0" by (simp add: mult_neg_pos)
      with nn u(6) show False by simp
    qed
    have M'pos: "0 < M'"
    proof (rule ccontr)
      assume "\<not> 0 < M'"
      then have "(of_int M' :: real) \<le> 0" by simp
      then have "of_int M' * (2::real) powi E' \<le> 0" by (simp add: mult_nonpos_nonneg)
      with nn lt v(6) show False by simp
    qed
    have M1: "M + 1 < 2 ^ 53"
    proof (rule ccontr)
      assume "\<not> M + 1 < 2 ^ 53"
      with u(2) Mnn have "M = 2 ^ 53 - 1" by linarith
      with u(1) show False by simp
    qed
    define z where "z = of_int (M + 1) * (2::real) powi E"
    have bz: "is_binary64 z"
      unfolding z_def by (rule is_binary64I[of "M + 1" E]) (use M1 Mnn u in simp_all)
    have uz: "u < z" unfolding z_def u(6) by simp
    have "z < v"
    proof (cases "E' \<le> E")
      case True
      show ?thesis
      proof (cases "E' = E")
        case True
        have "M < M'"
        proof (rule ccontr)
          assume "\<not> M < M'"
          then have "(of_int M' :: real) \<le> of_int M" by simp
          then have "of_int M' * (2::real) powi E \<le> of_int M * 2 powi E"
            by (rule mult_right_mono) simp
          with lt show False unfolding u(6) v(6) True by simp
        qed
        with u(1) v(1) have "M + 1 < M'" by presburger
        then have "(of_int (M + 1) :: real) < of_int M'" by (simp only: of_int_less_iff)
        then show ?thesis unfolding z_def v(6) True by simp
      next
        case False
        with True have EE: "E' + 1 \<le> E" by simp
        with v(3) u(5) Mnn have big: "2 ^ 52 \<le> M" by simp
        have "v \<le> of_int (2 ^ 53) * 2 powi E'"
          unfolding v(6) by (rule mult_right_mono) (use v(2) in simp_all)
        also have "\<dots> = 2 ^ 52 * (2::real) powi (E' + 1)" by (simp add: two_powi_add)
        also have "\<dots> \<le> 2 ^ 52 * (2::real) powi E"
          by (rule mult_left_mono[OF two_powi_mono[OF EE]]) simp
        also have "\<dots> \<le> of_int M * 2 powi E"
        proof (rule mult_right_mono)
          have "(of_int (2 ^ 52) :: real) \<le> of_int M" using big by (simp only: of_int_le_iff)
          then show "(2 ^ 52 :: real) \<le> of_int M" by simp
        qed simp
        finally have "v \<le> u" unfolding u(6) .
        with lt show ?thesis by simp
      qed
    next
      case False
      then have EE: "E + 1 \<le> E'" by simp
      with u(3) v(5) M'pos have big: "2 ^ 52 \<le> M'" by simp
      have "(of_int (M + 1) :: real) < of_int (2 ^ 53)" using M1 by (simp only: of_int_less_iff)
      then have "z < of_int (2 ^ 53) * 2 powi E" unfolding z_def by simp
      also have "\<dots> = 2 ^ 52 * (2::real) powi (E + 1)" by (simp add: two_powi_add)
      also have "\<dots> \<le> 2 ^ 52 * (2::real) powi E'"
        by (rule mult_left_mono[OF two_powi_mono[OF EE]]) simp
      also have "\<dots> \<le> of_int M' * 2 powi E'"
      proof (rule mult_right_mono)
        have "(of_int (2 ^ 52) :: real) \<le> of_int M'" using big by (simp only: of_int_le_iff)
        then show "(2 ^ 52 :: real) \<le> of_int M'" by simp
      qed simp
      finally show ?thesis unfolding v(6) .
    qed
    with uz none[OF bz] show False by blast
  qed
  have pos: False if r: "round_nearest_even x u" "round_nearest_even x v" and lt: "u < v" for x u v
  proof -
    consider "0 \<le> u" | "v \<le> 0" | "u < 0" "0 < v" by linarith
    then show False
    proof cases
      case 1
      from main[OF r lt 1] show False .
    next
      case 2
      from r have "round_nearest_even (- x) (- v)" "round_nearest_even (- x) (- u)"
        unfolding round_nearest_even_minus by blast+
      from main[OF this] lt 2 show False by simp
    next
      case 3
      from r have nu: "nearest_binary64 x u" and nv: "nearest_binary64 x v"
        unfolding round_nearest_even_def by blast+
      then have d: "\<bar>x - u\<bar> = \<bar>x - v\<bar>" unfolding nearest_binary64_def by (meson order_antisym)
      with 3 have "\<bar>x - 0\<bar> < \<bar>x - u\<bar>" by linarith
      moreover from nu zero_is_binary64 have "\<bar>x - u\<bar> \<le> \<bar>x - 0\<bar>"
        unfolding nearest_binary64_def by blast
      ultimately show False by linarith
    qed
  qed
  from ne consider "y < y'" | "y' < y" by linarith
  then show False
  proof cases
    case 1
    from pos[OF y y' 1] show False .
  next
    case 2
    from pos[OF y' y 2] show False .
  qed
qed

lemma toward_zero_abs_ge:
  assumes "of_int N \<le> \<bar>y\<bar>"
  shows "N \<le> \<bar>toward_zero y\<bar>"
proof (cases "0 \<le> y")
  case True
  with assms have "of_int N \<le> y" by simp
  then have "N \<le> \<lfloor>y\<rfloor>" by (simp only: le_floor_iff)
  moreover have "0 \<le> \<lfloor>y\<rfloor>" using True by simp
  ultimately show ?thesis using True unfolding toward_zero_def by simp
next
  case False
  with assms have "y \<le> - of_int N" by simp
  then have "y \<le> of_int (- N)" by simp
  then have "\<lceil>y\<rceil> \<le> - N" by (simp only: ceiling_le_iff)
  then show ?thesis using False unfolding toward_zero_def by simp
qed

lemma toward_zero_huge:
  assumes "2 powi 1023 \<le> \<bar>y\<bar>"
  shows "2 ^ 1023 \<le> \<bar>toward_zero y\<bar>"
proof -
  have "(2::real) powi (int 1023) = of_int (2 ^ 1023)" unfolding two_powi_nat by simp
  then have "(2::real) powi 1023 = of_int (2 ^ 1023)" by simp
  with assms have "of_int (2 ^ 1023) \<le> \<bar>y\<bar>" by simp
  then show ?thesis by (rule toward_zero_abs_ge)
qed

lemma representable_small:
  assumes "representable sg w t" and "w \<le> 64"
  shows "\<bar>t\<bar> < 2 ^ 1023"
proof -
  have a: "(2::int) ^ w \<le> 2 ^ 64" by (rule power_increasing) (use assms(2) in simp_all)
  have b: "(2::int) ^ (w - 1) \<le> 2 ^ 64" by (rule power_increasing) (use assms(2) in simp_all)
  have c: "(2::int) ^ 64 < 2 ^ 1023" by (rule power_strict_increasing) simp_all
  from assms(1) a b c show ?thesis unfolding representable_def by (auto split: if_splits)
qed

lemma f64_of_int_finite:
  assumes "\<bar>D\<bar> \<le> 2 ^ 64"
  shows "\<exists>M E. f64_of_int D = Finite M E \<and> round_nearest_even (of_int D) (of_int M * 2 powi E)"
proof (cases "f64_round D 0")
  case (Finite M E)
  from f64_round_correct[OF this] Finite show ?thesis by (simp add: f64_of_int_def)
next
  case (Infinite s)
  from f64_round_overflow[OF this] have "(2::real) powi 1023 \<le> \<bar>of_int D\<bar>" by simp
  then have "of_int (2 ^ 1023) \<le> \<bar>of_int D :: real\<bar>"
    unfolding two_powi_nat[of 1023, symmetric] by simp
  then have "2 ^ 1023 \<le> \<bar>D\<bar>" by (simp only: of_int_abs[symmetric] of_int_le_iff)
  moreover have "(2::int) ^ 64 < 2 ^ 1023" by (rule power_strict_increasing) simp_all
  ultimately show ?thesis using assms by linarith
next
  case NaN
  then show ?thesis using f64_round_not_NaN by blast
qed

lemma f64_to_int_spec:
  assumes D: "\<bar>D\<bar> \<le> 2 ^ 64" and w: "w \<le> 64"
    and y1: "round_nearest_even (of_int D) y1"
    and y2: "round_nearest_even (y1 * (of_int m * 2 powi e)) y2"
    and rep: "representable sg w (toward_zero y2)"
  shows "f64_to_int impl sg w (f64_mul (f64_of_int D) (Finite m e)) = toward_zero y2"
proof -
  from f64_of_int_finite[OF D] obtain M1 E1 where
    f1: "f64_of_int D = Finite M1 E1" and r1: "round_nearest_even (of_int D) (of_int M1 * 2 powi E1)"
    by blast
  have y1v: "y1 = of_int M1 * 2 powi E1" by (rule round_nearest_even_unique[OF y1 r1])
  have x2: "of_int (M1 * m) * 2 powi (E1 + e) = y1 * (of_int m * (2::real) powi e)"
    unfolding y1v by (simp add: two_powi_add)
  have mul: "f64_mul (f64_of_int D) (Finite m e) = f64_round (M1 * m) (E1 + e)"
    unfolding f1 by simp
  show ?thesis
  proof (cases "f64_round (M1 * m) (E1 + e)")
    case (Finite M2 E2)
    from f64_round_correct[OF this]
    have "round_nearest_even (y1 * (of_int m * 2 powi e)) (of_int M2 * 2 powi E2)"
      unfolding x2 .
    then have y2v: "y2 = of_int M2 * 2 powi E2" by (rule round_nearest_even_unique[OF y2])
    have "f64_trunc M2 E2 = toward_zero y2" unfolding y2v by (rule toward_zero_f64_trunc)
    with rep show ?thesis unfolding mul Finite by (simp add: f64_to_int_def)
  next
    case (Infinite s)
    from f64_round_overflow[OF this]
    have "2 powi 1023 \<le> \<bar>y1 * (of_int m * (2::real) powi e)\<bar>" unfolding x2 .
    moreover from y2 have "nearest_binary64 (y1 * (of_int m * 2 powi e)) y2"
      unfolding round_nearest_even_def by blast
    ultimately have "2 powi 1023 \<le> \<bar>y2\<bar>" by (rule nearest_of_huge[rotated])
    from toward_zero_huge[OF this] representable_small[OF rep w] show ?thesis by linarith
  next
    case NaN
    then show ?thesis using f64_round_not_NaN by blast
  qed
qed

lemma uint_minus_wrap:
  fixes x y :: "'a::len word"
  shows "uint (x - y) = wrap False LENGTH('a) (uint x - uint y)"
  by (simp add: wrap_def uint_word_ariths)

lemma sint_minus_wrap:
  fixes x y :: "'a::len word"
  shows "sint (x - y) = wrap True LENGTH('a) (sint x - sint y)"
proof -
  have "x - y = word_of_int (sint x - sint y)" by simp
  then have "sint (x - y) = sint (word_of_int (sint x - sint y) :: 'a word)" by simp
  also have "\<dots> = wrap True LENGTH('a) (sint x - sint y)"
    unfolding wrap_def by (simp only: int_word_sint if_True) 
  finally show ?thesis .
qed

lemma scale_unsigned_spec:
  fixes d :: "'a::len word"
  assumes "LENGTH('a) \<le> 64"
    and "round_nearest_even (of_int (uint d)) y1"
    and "round_nearest_even (y1 * (of_int m * 2 powi e)) y2"
    and "representable False LENGTH('a) (toward_zero y2)"
  shows "uint (scale_unsigned impl (Finite m e) d) = toward_zero y2"
proof -
  have "(2::int) ^ LENGTH('a) \<le> 2 ^ 64" by (rule power_increasing) (use assms(1) in simp_all)
  then have D: "\<bar>uint d\<bar> \<le> 2 ^ 64"
    using uint_lt2p[of d] uint_ge_0[of d] by linarith
  from assms(4) have "0 \<le> toward_zero y2" "toward_zero y2 < 2 ^ LENGTH('a)"
    by (simp_all add: representable_def)
  then have "uint (word_of_int (toward_zero y2) :: 'a word) = toward_zero y2"
    by (simp add: uint_word_of_int)
  then show ?thesis
    unfolding scale_unsigned_def f64_to_int_spec[OF D assms] .
qed

lemma scale_signed_spec:
  fixes d :: "'a::len word"
  assumes "LENGTH('a) \<le> 64"
    and "round_nearest_even (of_int (sint d)) y1"
    and "round_nearest_even (y1 * (of_int m * 2 powi e)) y2"
    and "representable True LENGTH('a) (toward_zero y2)"
  shows "sint (scale_signed impl (Finite m e) d) = toward_zero y2"
proof -
  have "(2::int) ^ (LENGTH('a) - 1) \<le> 2 ^ 64" by (rule power_increasing) (use assms(1) in simp_all)
  moreover have "sint d < 2 ^ (LENGTH('a) - 1)" "- (2 ^ (LENGTH('a) - 1)) \<le> sint d"
    by (rule sint_lt, rule sint_ge)
  ultimately have D: "\<bar>sint d\<bar> \<le> 2 ^ 64" by linarith
  from assms(4) have "- (2 ^ (LENGTH('a) - 1)) \<le> toward_zero y2" "toward_zero y2 < 2 ^ (LENGTH('a) - 1)"
    by (simp_all add: representable_def)
  then have "sint (word_of_int (toward_zero y2) :: 'a word) = toward_zero y2"
    by (simp add: sint_sbintrunc' signed_take_bit_int_eq_self)
  then show ?thesis
    unfolding scale_signed_def f64_to_int_spec[OF D assms] .
qed

lemma round_nearest_even_exists_uint:
  fixes d :: "'a::len word"
  assumes "LENGTH('a) \<le> 64"
  shows "\<exists>y. round_nearest_even (of_int (uint d)) y"
proof -
  have "(2::int) ^ LENGTH('a) \<le> 2 ^ 64" by (rule power_increasing) (use assms(1) in simp_all)
  then have D: "\<bar>uint d\<bar> \<le> 2 ^ 64"
    using uint_lt2p[of d] uint_ge_0[of d] by linarith
  from f64_of_int_finite[OF D] show ?thesis by blast
qed

lemma round_nearest_even_exists_sint:
  fixes d :: "'a::len word"
  assumes "LENGTH('a) \<le> 64"
  shows "\<exists>y. round_nearest_even (of_int (sint d)) y"
proof -
  have "(2::int) ^ (LENGTH('a) - 1) \<le> 2 ^ 64" by (rule power_increasing) (use assms(1) in simp_all)
  moreover have "sint d < 2 ^ (LENGTH('a) - 1)" "- (2 ^ (LENGTH('a) - 1)) \<le> sint d"
    by (rule sint_lt, rule sint_ge)
  ultimately have D: "\<bar>sint d\<bar> \<le> 2 ^ 64" by linarith
  from f64_of_int_finite[OF D] show ?thesis by blast
qed

section \<open>The switch of DiffFromLast computes the rounded, truncated product\<close>

lemma wrap_fits:
  assumes "0 < w" and "representable sg w z"
  shows "wrap sg w z = z"
proof (cases sg)
  case True
  have p: "(2::int) ^ w = 2 * 2 ^ (w - 1)" using assms(1) by (cases w) simp_all
  from assms(2) True have "0 \<le> z + 2 ^ (w - 1)" "z + 2 ^ (w - 1) < 2 ^ w"
    unfolding representable_def p by simp_all
  then have "(z + 2 ^ (w - 1)) mod 2 ^ w = z + 2 ^ (w - 1)" by (rule mod_pos_pos_trivial)
  then show ?thesis using True by (simp add: wrap_def)
next
  case False
  with assms(2) have "0 \<le> z" "z < 2 ^ w" unfolding representable_def by simp_all
  then have "z mod 2 ^ w = z" by (rule mod_pos_pos_trivial)
  then show ?thesis using False by (simp add: wrap_def)
qed

lemma unsigned_cell:
  fixes x y :: "'a::len word"
  assumes "LENGTH('a) \<le> 64"
  shows "(\<exists>y1. round_nearest_even (of_int (wrap False LENGTH('a) (uint x - uint y))) y1)
       \<and> (\<forall>y1 y2. round_nearest_even (of_int (wrap False LENGTH('a) (uint x - uint y))) y1
              \<and> round_nearest_even (y1 * (of_int m * 2 powi e)) y2
              \<and> representable False LENGTH('a) (toward_zero y2)
            \<longrightarrow> uint (scale_unsigned impl (Finite m e) (x - y)) = toward_zero y2)"
  unfolding uint_minus_wrap[symmetric]
  using round_nearest_even_exists_uint[OF assms] scale_unsigned_spec[OF assms] by blast

lemma signed_cell:
  fixes x y :: "'a::len word"
  assumes "LENGTH('a) \<le> 64"
  shows "(\<exists>y1. round_nearest_even (of_int (wrap True LENGTH('a) (sint x - sint y))) y1)
       \<and> (\<forall>y1 y2. round_nearest_even (of_int (wrap True LENGTH('a) (sint x - sint y))) y1
              \<and> round_nearest_even (y1 * (of_int m * 2 powi e)) y2
              \<and> representable True LENGTH('a) (toward_zero y2)
            \<longrightarrow> sint (scale_signed impl (Finite m e) (x - y)) = toward_zero y2)"
  unfolding sint_minus_wrap[symmetric]
  using round_nearest_even_exists_sint[OF assms] scale_signed_spec[OF assms] by blast

lemma diff_switch_spec:
  assumes sw: "diff_switch impl (Finite m e) cur tmp = Inr out"
    and T: "integer_type (type_of cur)"
  shows "type_of tmp = type_of cur \<and> type_of out = type_of cur
       \<and> (\<exists>y1. round_nearest_even
                  (of_int (wrap (signed_type (type_of cur)) (width_of (type_of cur))
                             (int_value cur - int_value tmp))) y1)
       \<and> (\<forall>y1 y2. round_nearest_even
                  (of_int (wrap (signed_type (type_of cur)) (width_of (type_of cur))
                             (int_value cur - int_value tmp))) y1
              \<and> round_nearest_even (y1 * (of_int m * 2 powi e)) y2
              \<and> representable (signed_type (type_of cur)) (width_of (type_of cur)) (toward_zero y2)
            \<longrightarrow> int_value out = toward_zero y2)"
proof (cases cur)
  case (VInt8 x)
  with sw obtain y where t: "tmp = VInt8 y"
    and o: "out = VInt8 (scale_signed impl (Finite m e) (x - y))"
    by (cases tmp) auto
  from signed_cell[where 'a=8, of x y m e impl] show ?thesis
    unfolding VInt8 t o by simp
next
  case (VInt16 x)
  with sw obtain y where t: "tmp = VInt16 y"
    and o: "out = VInt16 (scale_signed impl (Finite m e) (x - y))"
    by (cases tmp) auto
  from signed_cell[where 'a=16, of x y m e impl] show ?thesis
    unfolding VInt16 t o by simp
next
  case (VInt32 x)
  with sw obtain y where t: "tmp = VInt32 y"
    and o: "out = VInt32 (scale_signed impl (Finite m e) (x - y))"
    by (cases tmp) auto
  from signed_cell[where 'a=32, of x y m e impl] show ?thesis
    unfolding VInt32 t o by simp
next
  case (VInt64 x)
  with sw obtain y where t: "tmp = VInt64 y"
    and o: "out = VInt64 (scale_signed impl (Finite m e) (x - y))"
    by (cases tmp) auto
  from signed_cell[where 'a=64, of x y m e impl] show ?thesis
    unfolding VInt64 t o by simp
next
  case (VInt x)
  with sw obtain y where t: "tmp = VInt y"
    and o: "out = VInt (scale_signed impl (Finite m e) (x - y))"
    by (cases tmp) auto
  from signed_cell[where 'a=64, of x y m e impl] show ?thesis
    unfolding VInt t o by simp
next
  case (VUint8 x)
  with sw obtain y where t: "tmp = VUint8 y"
    and o: "out = VUint8 (scale_unsigned impl (Finite m e) (x - y))"
    by (cases tmp) auto
  from unsigned_cell[where 'a=8, of x y m e impl] show ?thesis
    unfolding VUint8 t o by simp
next
  case (VUint16 x)
  with sw obtain y where t: "tmp = VUint16 y"
    and o: "out = VUint16 (scale_unsigned impl (Finite m e) (x - y))"
    by (cases tmp) auto
  from unsigned_cell[where 'a=16, of x y m e impl] show ?thesis
    unfolding VUint16 t o by simp
next
  case (VUint32 x)
  with sw obtain y where t: "tmp = VUint32 y"
    and o: "out = VUint32 (scale_unsigned impl (Finite m e) (x - y))"
    by (cases tmp) auto
  from unsigned_cell[where 'a=32, of x y m e impl] show ?thesis
    unfolding VUint32 t o by simp
next
  case (VUint64 x)
  with sw obtain y where t: "tmp = VUint64 y"
    and o: "out = VUint64 (scale_unsigned impl (Finite m e) (x - y))"
    by (cases tmp) auto
  from unsigned_cell[where 'a=64, of x y m e impl] show ?thesis
    unfolding VUint64 t o by simp
next
  case (VUint x)
  with sw obtain y where t: "tmp = VUint y"
    and o: "out = VUint (scale_unsigned impl (Finite m e) (x - y))"
    by (cases tmp) auto
  from unsigned_cell[where 'a=64, of x y m e impl] show ?thesis
    unfolding VUint t o by simp
next
  case (VString x)
  with T show ?thesis by simp
next
  case (VFloat64 x)
  with T show ?thesis by simp
next
  case VNil
  with T show ?thesis by simp
qed

lemma product_rounds:
  assumes D: "\<bar>D\<bar> \<le> 2 ^ 64"
    and y1: "round_nearest_even (of_int D) y1"
    and small: "\<bar>y1 * (of_int m * 2 powi e)\<bar> < 2 powi 1023"
  shows "\<exists>y2. round_nearest_even (y1 * (of_int m * 2 powi e)) y2"
proof -
  from f64_of_int_finite[OF D] obtain M1 E1 where
    r1: "round_nearest_even (of_int D) (of_int M1 * 2 powi E1)" by blast
  have y1v: "y1 = of_int M1 * 2 powi E1" by (rule round_nearest_even_unique[OF y1 r1])
  have x2: "of_int (M1 * m) * 2 powi (E1 + e) = y1 * (of_int m * (2::real) powi e)"
    unfolding y1v by (simp add: two_powi_add)
  show ?thesis
  proof (cases "f64_round (M1 * m) (E1 + e)")
    case (Finite M2 E2)
    from f64_round_correct[OF this] show ?thesis unfolding x2 by blast
  next
    case (Infinite s)
    from f64_round_overflow[OF this] small show ?thesis unfolding x2 by linarith
  next
    case NaN
    then show ?thesis using f64_round_not_NaN by blast
  qed
qed

lemma wrap_bound:
  assumes "w \<le> 64"
  shows "\<bar>wrap sg w z\<bar> \<le> 2 ^ 64"
proof -
  have p: "(2::int) ^ w \<le> 2 ^ 64" by (rule power_increasing) (use assms in simp_all)
  have q: "(2::int) ^ (w - 1) \<le> 2 ^ w" by (rule power_increasing) simp_all
  have z0: "0 \<le> (2::int) ^ (w - 1)" by simp
  have m: "0 \<le> x mod 2 ^ w" "x mod 2 ^ w < 2 ^ w" for x :: int by simp_all
  show ?thesis
  proof (cases sg)
    case True
    from m[of "z + 2 ^ (w - 1)"] p q z0 have "\<bar>(z + 2 ^ (w - 1)) mod 2 ^ w - 2 ^ (w - 1)\<bar> \<le> 2 ^ 64"
      by linarith
    then show ?thesis using True by (simp add: wrap_def)
  next
    case False
    from m[of z] p have "\<bar>z mod 2 ^ w\<bar> \<le> 2 ^ 64" by linarith
    then show ?thesis using False by (simp add: wrap_def)
  qed
qed

lemma width_of_le: "width_of T \<le> 64"
  by (cases T) simp_all

lemma width_of_pos: "integer_type T \<Longrightarrow> 0 < width_of T"
  by (cases T) simp_all

lemma diff_switch_type:
  "diff_switch impl cf cur tmp = Inr out \<Longrightarrow> type_of out = type_of cur"
  by (cases cur; cases tmp; auto)

lemma uint_range:
  fixes x :: "'a::len word"
  shows "0 \<le> uint x \<and> uint x < 2 ^ LENGTH('a)"
  using uint_ge_0[of x] uint_lt2p[of x] by blast

lemma int_value_unsigned:
  assumes "integer_type (type_of v)" and "\<not> signed_type (type_of v)"
  shows "0 \<le> int_value v" and "int_value v < 2 ^ width_of (type_of v)"
proof -
  from assms uint_range[where 'a=8] uint_range[where 'a=16] uint_range[where 'a=32]
    uint_range[where 'a=64]
  have "0 \<le> int_value v \<and> int_value v < 2 ^ width_of (type_of v)"
    by (cases v) simp_all
  then show "0 \<le> int_value v" and "int_value v < 2 ^ width_of (type_of v)" by blast+
qed

lemma wrap_backwards:
  assumes "0 \<le> a" and "a < b" and "b < 2 ^ w"
  shows "wrap False w (a - b) = 2 ^ w - (b - a)"
proof -
  have "(a - b) mod 2 ^ w = (a - b + 2 ^ w) mod 2 ^ w" by simp
  also have "\<dots> = a - b + 2 ^ w"
    by (rule mod_pos_pos_trivial) (use assms in linarith)+
  finally show ?thesis by (simp add: wrap_def)
qed

lemma nearest_within_1024:
  assumes W: "0 \<le> W" "W < 2 ^ 64" and n: "nearest_binary64 (of_int W) y"
  shows "\<bar>y - of_int W\<bar> \<le> 1024" and "0 \<le> y"
proof -
  define q where "q = W div 2048"
  define r where "r = W mod 2048"
  have dec: "W = q * 2048 + r" and r: "0 \<le> r" "r < 2048" by (simp_all add: q_def r_def)
  have q: "0 \<le> q" "q < 2 ^ 53" using W by (simp_all add: q_def)
  have z1: "is_binary64 (of_int (q * 2048))"
    by (rule is_binary64I[of q 11]) (use q in simp_all)
  have z2: "is_binary64 (of_int ((q + 1) * 2048))"
  proof (cases "q + 1 < 2 ^ 53")
    case True
    show ?thesis by (rule is_binary64I[of "q + 1" 11]) (use q True in simp_all)
  next
    case False
    with q have "q + 1 = 2 ^ 53" by linarith
    then have "(q + 1) * 2048 = 2 ^ 64" by simp
    then show ?thesis by (intro is_binary64I[of "2 ^ 52" 12]) simp_all
  qed
  define rr :: real where "rr = of_int r"
  have rr: "0 \<le> rr" "rr < 2048" using r by (simp_all add: rr_def)
  have v1: "(of_int (q * 2048) :: real) = of_int W - rr" unfolding dec rr_def by simp
  have v2: "(of_int ((q + 1) * 2048) :: real) = of_int W - rr + 2048"
    unfolding dec rr_def by (simp add: algebra_simps)
  from n z1 have "\<bar>of_int W - y\<bar> \<le> \<bar>of_int W - (of_int W - rr)\<bar>"
    unfolding nearest_binary64_def v1 by blast
  moreover from n z2 have "\<bar>of_int W - y\<bar> \<le> \<bar>of_int W - (of_int W - rr + 2048)\<bar>"
    unfolding nearest_binary64_def v2 by blast
  ultimately show "\<bar>y - of_int W\<bar> \<le> 1024" using rr by linarith
  from n zero_is_binary64 have "\<bar>of_int W - y\<bar> \<le> \<bar>of_int W - 0\<bar>"
    unfolding nearest_binary64_def by blast
  moreover have "0 \<le> (of_int W :: real)" using W(1) by simp
  ultimately show "0 \<le> y" by linarith
qed

lemma factor_one_round_trip:
  assumes W: "0 \<le> W" "W < 2 ^ 64 - 1024" and y: "round_nearest_even (of_int W) y"
  shows "round_nearest_even (y * (of_int 1 * 2 powi 0)) y"
    and "representable False 64 (toward_zero y)"
    and "\<bar>toward_zero y - W\<bar> \<le> 1024"
proof -
  from y have n: "nearest_binary64 (of_int W) y" unfolding round_nearest_even_def by blast
  then have b: "is_binary64 y" unfolding nearest_binary64_def by blast
  from round_nearest_even_self[OF b] show "round_nearest_even (y * (of_int 1 * 2 powi 0)) y"
    by simp
  have W64: "W < 2 ^ 64" using W(2) by simp
  note d = nearest_within_1024[OF W(1) W64 n]
  have tz: "toward_zero y = \<lfloor>y\<rfloor>" using d(2) by (simp add: toward_zero_def)
  have lo: "of_int (W - 1024) \<le> y" using d(1) by (simp, (linarith)?)
  have hi: "y \<le> of_int (W + 1024)" using d(1) by (simp, (linarith)?)
  from lo have l: "W - 1024 \<le> \<lfloor>y\<rfloor>" by (simp only: le_floor_iff)
  from hi have h: "\<lfloor>y\<rfloor> \<le> W + 1024" by (simp only: floor_le_iff, (linarith)?)
  from d(2) have z: "0 \<le> \<lfloor>y\<rfloor>" by simp
  have top: "\<lfloor>y\<rfloor> < 2 ^ 64" using h W(2) by linarith
  show "representable False 64 (toward_zero y)"
    unfolding tz representable_def using z top by (simp only: if_False conj_commute)
  show "\<bar>toward_zero y - W\<bar> \<le> 1024" unfolding tz using l h by linarith
qed

section \<open>The claims\<close>

subsection \<open>C1: every sampler sends exactly one value\<close>

text \<open>
  Claim C1 says that every sampler writes exactly one value to the channel in every
  lap, also when its source cannot be opened, so that the loop at lines 203 to 214
  always receives its N values.  The code does not do that: \<open>network\<close> and \<open>disks\<close> return
  the error of \<open>os.Open\<close> without a send (lines 455 to 457 and 512 to 514), and so does
  \<open>mounts\<close> for the errors of \<open>os.Open\<close> and of \<open>syscall.Statfs\<close> (lines 561 to 563 and
  578 to 580), while \<open>swap\<close> (like cpu, mem, uptime and load) sends nil before it
  returns its error.  On a host where \<open>/proc/net/dev\<close> cannot be opened the network
  sampler leaves the channel empty, and a single-shot run that collects network waits
  at line 204 for a value that no goroutine will send (the Go runtime ends a process
  in which no goroutine can run with a deadlock error).
\<close>

theorem open_failure_sends_nothing:
  "Open (host_env 100 no_proc) ''/proc/net/dev'' = Inl ''open /proc/net/dev: permission denied''
   \<and> network impl_zero (host_env 100 no_proc) ''host.'' start_state
       = Inr (start_state, Some ''open /proc/net/dev: permission denied'')
   \<and> disks impl_zero (host_env 100 no_proc) ''host.'' start_state
       = Inr (start_state, Some ''open /proc/diskstats: permission denied'')
   \<and> ch start_state = []
   \<and> main_loop impl_zero ok_client id once_flags [F_network] [host_env 100 no_proc] start_state True
       = ([Launched 1], Blocked)
   \<and> map_sum id (\<lambda>(st, err). (ch st, err)) (mounts impl_zero (host_env 100 no_proc) ''host.'' start_state)
       = Inr ([], Some ''open /proc/mounts: permission denied'')
   \<and> map_sum id (\<lambda>(st, err). (ch st, err)) (mounts impl_zero (host_env 100 stale_mounts) ''host.'' start_state)
       = Inr ([], Some ''statfs: no such file or directory'')
   \<and> map_sum id (\<lambda>(st, err). (ch st, err)) (swap impl_zero (host_env 100 no_proc) ''host.'' start_state)
       = Inr ([None], Some ''swap: no such file or directory'')"
  by (simp add: host_env_def no_proc_def stale_mounts_def once_flags_def start_state_def
      sampler_simps split_spaces_def sysfs_def)

subsection \<open>C2: a cell without a previous value\<close>

text \<open>
  Claim C2 says that a cell with no previous value in the cache is reported with its raw
  value.  Counterexample: in the first lap of the cpu sampler nothing is cached, the raw
  total is 100, and the call leaves 0 in that cell; so does the sampler \<open>cpu\<close> itself on a
  host whose counters are at 100.
\<close>

theorem new_cell_is_not_passed_through_counterexample:
  "DiffFromLast impl_zero cpu_lap1 (Some 0) = Inr (cpu_lap1_after, None)
   \<and> \<not> has_prev (rows_of cpu_lap1 ''host.cpu'') 0 6
   \<and> Points (heap cpu_lap1 ! 0) ! 0 ! 6 = VUint64 100
   \<and> Points (heap cpu_lap1_after ! 0) ! 0 ! 6 = VUint64 0
   \<and> cpu impl_zero (host_env 100 no_proc) ''host.'' start_state = Inr (lap1_state, None)
   \<and> Points (heap (globals lap1_state) ! 0) ! 0 ! 6 = VUint64 0"
  by (simp add: cpu_lap1_def cpu_lap1_after_def has_prev_def host_env_def start_state_def
      lap1_state_def sampler_simps run_simps)

text \<open>
  Claim C2 as amended: a cell \<open>(i, j)\<close> with no previous value in the cache is diffed
  against itself.  When the consistency factor is finite, the call leaves the zero of the
  cell's type in an integer cell, and leaves a cell of any other type (a string, a
  float64) as it is.
\<close>

theorem new_cell_holds_zero_delta:
  assumes "DiffFromLast impl w (Some p) = Inr (w', r)"
    and "i < length (Points (heap w ! p))"
    and "j < length (Points (heap w ! p) ! i)"
    and "\<not> has_prev (rows_of w (Name (heap w ! p))) i j"
    and "consistencyFactor w = Finite m e"
  shows "Points (heap w' ! p) ! i ! j = zero_delta (Points (heap w ! p) ! i ! j)"
proof -
  from DiffFromLast_effect(10)[OF assms(1-3)] assms(4,5)
  show ?thesis by (simp add: tmp_of_def diff_switch_self)
qed

text \<open>
  The amended claim C2 on the first lap of the cpu sampler: the total becomes 0, the
  identifier stays.
\<close>

theorem new_cell_holds_zero_delta_witness:
  "DiffFromLast impl_zero cpu_lap1 (Some 0) = Inr (cpu_lap1_after, None)
   \<and> \<not> has_prev (rows_of cpu_lap1 ''host.cpu'') 0 6
   \<and> Points (heap cpu_lap1_after ! 0) ! 0 ! 6 = zero_delta (VUint64 100)
   \<and> Points (heap cpu_lap1_after ! 0) ! 0 ! 0 = zero_delta (VString ''cpu'')"
proof -
  have run: "DiffFromLast impl_zero cpu_lap1 (Some 0) = Inr (cpu_lap1_after, None)"
    by (simp add: cpu_lap1_def cpu_lap1_after_def run_simps)
  have a: "0 < length (Points (heap cpu_lap1 ! 0))" "6 < length (Points (heap cpu_lap1 ! 0) ! 0)"
    "0 < length (Points (heap cpu_lap1 ! 0) ! 0)"
    "\<not> has_prev (rows_of cpu_lap1 (Name (heap cpu_lap1 ! 0))) 0 6"
    "\<not> has_prev (rows_of cpu_lap1 (Name (heap cpu_lap1 ! 0))) 0 0"
    "consistencyFactor cpu_lap1 = Finite 1 0"
    by (simp_all add: cpu_lap1_def has_prev_def rows_of_def)
  from new_cell_holds_zero_delta[OF run a(1) a(2) a(4) a(6)]
    new_cell_holds_zero_delta[OF run a(1) a(3) a(5) a(6)]
  show ?thesis using run a by (simp add: cpu_lap1_def)
qed

subsection \<open>C3: the retry of an incomplete lap in single-shot mode\<close>

text \<open>
  Claim C3 says that in single-shot mode no sleep lies between an incomplete lap and
  its retry.  Counterexample: a single-shot run that collects cpu.  The first lap is
  incomplete (no baseline), and the process sleeps for the interval of one second
  (line 245, where \<open>first\<close> is true) before it starts the goroutine of the second lap.
\<close>

theorem no_sleep_before_retry_counterexample:
  "\<not> daemonFlag once_flags
   \<and> main_loop impl_zero ok_client id once_flags [F_cpu]
        [host_env 100 no_proc, host_env 150 no_proc] start_state True
     = ([Launched 1, Slept 1000000000, Launched 1,
         PrettyPrinted [\<lparr>Name = ''host.cpu'', Columns = cpu_columns,
            Points = [[VString ''cpu'', VUint64 0, VUint64 0, VUint64 0, VUint64 50, VUint64 0,
                       VUint64 50]]\<rparr>]],
        Exited)"
  by (simp add: host_env_def once_flags_def start_state_def sampler_simps run_simps)

text \<open>
  Claim C3 as amended: in single-shot mode, when every sampler of a lap has sent its
  value and one of the values is nil (a sampler failed or a normalization was
  incomplete), the process sleeps once for \<open>daemonIntervalFlag\<close> and then starts the
  goroutines of the next lap.
\<close>

theorem incomplete_lap_sleeps_before_retry:
  assumes "\<not> daemonFlag fl"
    and "launch impl e (prefixFlag fl) cl st = Inr st1"
    and "length (ch st1) = length cl"
    and "None \<in> set (ch st1)"
  shows "\<exists>evs out.
      main_loop impl client lower fl cl (e # e' # es) st True
        = (Launched (length cl) # Slept (daemonIntervalFlag fl) # Launched (length cl) # evs, out)
    \<and> main_loop impl client lower fl cl (e' # es) (st1\<lparr>ch := []\<rparr>) True
        = (Launched (length cl) # evs, out)"
proof -
  have fan: "fan_in (daemonFlag fl) (length cl) st1 [] False
      = Some (st1\<lparr>ch := []\<rparr>, map the (filter (\<lambda>v. v \<noteq> None) (ch st1)), True)"
    using fan_in_all[of "ch st1" "length cl" st1 "[]" "daemonFlag fl" "[]" False] assms(1,3,4)
    by simp
  obtain evs out where
    next_lap: "main_loop impl client lower fl cl (e' # es) (st1\<lparr>ch := []\<rparr>) True
                 = (Launched (length cl) # evs, out)"
    using main_loop_starts_lap by blast
  have "main_loop impl client lower fl cl (e # e' # es) st True
        = (Launched (length cl) # Slept (daemonIntervalFlag fl) # Launched (length cl) # evs, out)"
    using assms(1,2) fan next_lap by (simp del: main_loop.simps(2) add: main_loop.simps(2)[of _ _ _ _ _ e])
  with next_lap show ?thesis by blast
qed

text \<open>
  The amended claim C3 on the single-shot run that collects cpu: launch, sleep of one
  second, launch, print, exit.
\<close>

theorem incomplete_lap_sleeps_before_retry_witness:
  "\<not> daemonFlag once_flags
   \<and> launch impl_zero (host_env 100 no_proc) (prefixFlag once_flags) [F_cpu] start_state
       = Inr lap1_state
   \<and> length (ch lap1_state) = length [F_cpu]
   \<and> None \<in> set (ch lap1_state)
   \<and> main_loop impl_zero ok_client id once_flags [F_cpu]
        [host_env 100 no_proc, host_env 150 no_proc] start_state True
     = (Launched (length [F_cpu]) # Slept (daemonIntervalFlag once_flags) # Launched (length [F_cpu]) #
         [PrettyPrinted [\<lparr>Name = ''host.cpu'', Columns = cpu_columns,
            Points = [[VString ''cpu'', VUint64 0, VUint64 0, VUint64 0, VUint64 50, VUint64 0,
                       VUint64 50]]\<rparr>]],
        Exited)"
proof -
  have a: "\<not> daemonFlag once_flags"
    "launch impl_zero (host_env 100 no_proc) (prefixFlag once_flags) [F_cpu] start_state = Inr lap1_state"
    "length (ch lap1_state) = length [F_cpu]"
    "None \<in> set (ch lap1_state)"
    by (simp_all add: host_env_def once_flags_def start_state_def lap1_state_def sampler_simps run_simps)
  have next_lap: "main_loop impl_zero ok_client id once_flags [F_cpu] [host_env 150 no_proc]
      (lap1_state\<lparr>ch := []\<rparr>) True
     = (Launched (length [F_cpu]) #
         [PrettyPrinted [\<lparr>Name = ''host.cpu'', Columns = cpu_columns,
            Points = [[VString ''cpu'', VUint64 0, VUint64 0, VUint64 0, VUint64 50, VUint64 0,
                       VUint64 50]]\<rparr>]],
        Exited)"
    by (simp add: host_env_def once_flags_def lap1_state_def sampler_simps run_simps)
  from incomplete_lap_sleeps_before_retry[OF a, of ok_client id "host_env 150 no_proc" "[]"]
  obtain evs out where
    1: "main_loop impl_zero ok_client id once_flags [F_cpu]
          [host_env 100 no_proc, host_env 150 no_proc] start_state True
        = (Launched (length [F_cpu]) # Slept (daemonIntervalFlag once_flags) # Launched (length [F_cpu]) # evs, out)"
    and 2: "main_loop impl_zero ok_client id once_flags [F_cpu] [host_env 150 no_proc]
          (lap1_state\<lparr>ch := []\<rparr>) True = (Launched (length [F_cpu]) # evs, out)"
    by blast
  from 2 next_lap have "evs = [PrettyPrinted [\<lparr>Name = ''host.cpu'', Columns = cpu_columns,
            Points = [[VString ''cpu'', VUint64 0, VUint64 0, VUint64 0, VUint64 50, VUint64 0,
                       VUint64 50]]\<rparr>]]" "out = Exited"
    by simp_all
  with 1 a show ?thesis by blast
qed

subsection \<open>C4: the delta of a cell with a previous value\<close>

text \<open>
  Claim C4: for a cell \<open>(i, j)\<close> of integer type \<open>T\<close> with a previous value \<open>R1\<close> in the
  cache and the new raw value \<open>R2\<close>, a call that returns leaves
  \<open>T(float64(R2 - R1) * consistencyFactor)\<close> in the cell, for every finite factor
  \<open>c = m * 2 ^ e\<close> and each of the ten integer types.  In numbers: \<open>d\<close> is the difference
  \<open>R2 - R1\<close> as the type \<open>T\<close> holds it (the difference itself whenever it is in the range
  of \<open>T\<close>); \<open>y1\<close> is the float64 nearest to \<open>d\<close> and \<open>y2\<close> the float64 nearest to \<open>y1 * c\<close>
  (ties to even, as IEEE 754 rounds; \<open>y1\<close> exists, and so does \<open>y2\<close> when the product is
  below \<open>2 ^ 1023\<close>); and the cell holds \<open>y2\<close> with its fraction discarded, of the same
  type \<open>T\<close>, whenever that integer is in the range of \<open>T\<close> (for a value outside the range
  Go leaves the result of the conversion to the implementation).  When \<open>d\<close> and \<open>d * c\<close>
  are float64 numbers themselves nothing is rounded, and the cell holds \<open>d * c\<close> with its
  fraction discarded.
\<close>

theorem delta_is_rounded_scaled_difference:
  assumes "DiffFromLast impl w (Some p) = Inr (w', r)"
    and "i < length (Points (heap w ! p))"
    and "j < length (Points (heap w ! p) ! i)"
    and "has_prev (rows_of w (Name (heap w ! p))) i j"
    and "R2 = Points (heap w ! p) ! i ! j"
    and "R1 = rows_of w (Name (heap w ! p)) ! i ! j"
    and "out = Points (heap w' ! p) ! i ! j"
    and "T = type_of R2" and "integer_type T"
    and "d = wrap (signed_type T) (width_of T) (int_value R2 - int_value R1)"
    and "consistencyFactor w = Finite m e"
    and "c = of_int m * 2 powi e"
  shows "type_of R1 = T \<and> type_of out = T
       \<and> (representable (signed_type T) (width_of T) (int_value R2 - int_value R1)
            \<longrightarrow> d = int_value R2 - int_value R1)
       \<and> (\<exists>y1. round_nearest_even (of_int d) y1)
       \<and> (\<forall>y1. round_nearest_even (of_int d) y1 \<and> \<bar>y1 * c\<bar> < 2 powi 1023
            \<longrightarrow> (\<exists>y2. round_nearest_even (y1 * c) y2))
       \<and> (\<forall>y1 y2. round_nearest_even (of_int d) y1 \<and> round_nearest_even (y1 * c) y2
              \<and> representable (signed_type T) (width_of T) (toward_zero y2)
            \<longrightarrow> int_value out = toward_zero y2)
       \<and> (is_binary64 (of_int d) \<and> is_binary64 (of_int d * c)
              \<and> representable (signed_type T) (width_of T) (toward_zero (of_int d * c))
            \<longrightarrow> int_value out = toward_zero (of_int d * c))"
proof -
  from DiffFromLast_effect(10)[OF assms(1-3)] assms(4-7,11)
  have sw: "diff_switch impl (Finite m e) R2 R1 = Inr out" by (simp add: tmp_of_def)
  from diff_switch_spec[OF sw assms(9)[unfolded assms(8)]]
  have S: "type_of R1 = T" "type_of out = T" "\<exists>y1. round_nearest_even (of_int d) y1"
    and U: "\<And>y1 y2. round_nearest_even (of_int d) y1 \<Longrightarrow> round_nearest_even (y1 * c) y2
              \<Longrightarrow> representable (signed_type T) (width_of T) (toward_zero y2)
              \<Longrightarrow> int_value out = toward_zero y2"
    unfolding assms(8,10,12) by blast+
  have W: "d = int_value R2 - int_value R1"
    if "representable (signed_type T) (width_of T) (int_value R2 - int_value R1)"
    unfolding assms(10) by (rule wrap_fits[OF width_of_pos[OF assms(9)] that])
  have X: "int_value out = toward_zero (of_int d * c)"
    if "is_binary64 (of_int d)" "is_binary64 (of_int d * c)"
      "representable (signed_type T) (width_of T) (toward_zero (of_int d * c))"
    by (rule U[OF round_nearest_even_self[OF that(1)] round_nearest_even_self[OF that(2)] that(3)])
  have D: "\<bar>d\<bar> \<le> 2 ^ 64" unfolding assms(10) by (rule wrap_bound[OF width_of_le])
  have Y: "\<exists>y2. round_nearest_even (y1 * c) y2"
    if "round_nearest_even (of_int d) y1" "\<bar>y1 * c\<bar> < 2 powi 1023" for y1
    using product_rounds[OF D that(1) that(2)[unfolded assms(12)]] unfolding assms(12) .
  from S U W X Y show ?thesis by blast
qed

text \<open>
  Claim C4 on the scenario of the specification: the cache holds total 100, the new table
  total 150; with factor 1 the cell becomes 50, with factor 60 it becomes 3000, and with
  factor 1/2 it becomes 25.  Then on two more runs.  A uint64
  counter that went from 100 to 6100 under the factor of \<open>-i 1m\<close>, the float64 nearest to
  1/60: the exact product is just below 100 and would be cut to 99, the float64 product
  is 100 and the cell becomes 100.  An int cell that went from 30 to 3 with factor 1/2:
  the product -13.5 is cut towards zero and the cell becomes -13.
\<close>

theorem delta_is_rounded_scaled_difference_witness:
  "DiffFromLast impl_zero (cpu_lap2 (Finite 1 0)) (Some 0)
     = Inr (cpu_lap2_after (Finite 1 0)
              [VString ''cpu'', VUint64 5, VUint64 0, VUint64 5, VUint64 35, VUint64 5, VUint64 50],
            Some 0)
   \<and> int_value (VUint64 50) = toward_zero (of_int 50 * (of_int 1 * 2 powi 0))
   \<and> toward_zero (of_int 50 * (of_int 1 * 2 powi 0)) = 50
   \<and> DiffFromLast impl_zero (cpu_lap2 (Finite 60 0)) (Some 0)
     = Inr (cpu_lap2_after (Finite 60 0)
              [VString ''cpu'', VUint64 300, VUint64 0, VUint64 300, VUint64 2100, VUint64 300,
               VUint64 3000],
            Some 0)
   \<and> int_value (VUint64 3000) = toward_zero (of_int 50 * (of_int 60 * 2 powi 0))
   \<and> toward_zero (of_int 50 * (of_int 60 * 2 powi 0)) = 3000
   \<and> DiffFromLast impl_zero (cpu_lap2 (Finite 1 (- 1))) (Some 0)
     = Inr (cpu_lap2_after (Finite 1 (- 1))
              [VString ''cpu'', VUint64 2, VUint64 0, VUint64 2, VUint64 17, VUint64 2, VUint64 25],
            Some 0)
   \<and> has_prev (rows_of (cpu_lap2 (Finite 1 (- 1))) ''host.cpu'') 0 6
   \<and> wrap False 64 (150 - 100) = 50
   \<and> round_nearest_even (of_int 50) 50
   \<and> round_nearest_even (50 * (of_int 1 * 2 powi (- 1))) 25
   \<and> int_value (VUint64 25) = toward_zero 25
   \<and> DiffFromLast impl_zero (one_cell per_minute (VUint64 100) (VUint64 6100)) (Some 0)
     = Inr (one_cell_after per_minute (VUint64 6100) (VUint64 100), Some 0)
   \<and> wrap False 64 (6100 - 100) = 6000
   \<and> round_nearest_even (of_int 6000) 6000
   \<and> round_nearest_even (6000 * (of_int 4803839602528529 * 2 powi (- 58))) 100
   \<and> toward_zero (6000 * (of_int 4803839602528529 * 2 powi (- 58))) = 99
   \<and> int_value (VUint64 100) = toward_zero 100
   \<and> DiffFromLast impl_zero (one_cell (Finite 1 (- 1)) (VInt 30) (VInt 3)) (Some 0)
     = Inr (one_cell_after (Finite 1 (- 1)) (VInt 3) (VInt (- 13)), Some 0)
   \<and> wrap True 64 (3 - 30) = - 27
   \<and> int_value (VInt (- 13)) = toward_zero (of_int (- 27) * (of_int 1 * 2 powi (- 1)))
   \<and> toward_zero (of_int (- 27) * (of_int 1 * 2 powi (- 1))) = - 13"
proof -
  let ?half = "Finite 1 (- 1)"
  let ?a = "cpu_lap2_after ?half
      [VString ''cpu'', VUint64 2, VUint64 0, VUint64 2, VUint64 17, VUint64 2, VUint64 25]"
  have run1: "DiffFromLast impl_zero (cpu_lap2 ?half) (Some 0) = Inr (?a, Some 0)"
    by (simp add: cpu_lap2_def cpu_lap2_after_def run_simps)
  have a: "0 < length (Points (heap (cpu_lap2 ?half) ! 0))"
    "6 < length (Points (heap (cpu_lap2 ?half) ! 0) ! 0)"
    "has_prev (rows_of (cpu_lap2 ?half) (Name (heap (cpu_lap2 ?half) ! 0))) 0 6"
    "VUint64 150 = Points (heap (cpu_lap2 ?half) ! 0) ! 0 ! 6"
    "VUint64 100 = rows_of (cpu_lap2 ?half) (Name (heap (cpu_lap2 ?half) ! 0)) ! 0 ! 6"
    "VUint64 25 = Points (heap ?a ! 0) ! 0 ! 6"
    "consistencyFactor (cpu_lap2 ?half) = Finite 1 (- 1)"
    by (simp_all add: cpu_lap2_def cpu_lap2_after_def has_prev_def rows_of_def)
  have t: "TUint64 = type_of (VUint64 v)" "integer_type TUint64" for v by simp_all
  let ?a1 = "cpu_lap2_after (Finite 1 0)
      [VString ''cpu'', VUint64 5, VUint64 0, VUint64 5, VUint64 35, VUint64 5, VUint64 50]"
  let ?a60 = "cpu_lap2_after (Finite 60 0)
      [VString ''cpu'', VUint64 300, VUint64 0, VUint64 300, VUint64 2100, VUint64 300, VUint64 3000]"
  have run0: "DiffFromLast impl_zero (cpu_lap2 (Finite 1 0)) (Some 0) = Inr (?a1, Some 0)"
    by (simp add: cpu_lap2_def cpu_lap2_after_def run_simps)
  have run60: "DiffFromLast impl_zero (cpu_lap2 (Finite 60 0)) (Some 0) = Inr (?a60, Some 0)"
    by (simp add: cpu_lap2_def cpu_lap2_after_def run_simps)
  have g: "0 < length (Points (heap (cpu_lap2 cf) ! 0))"
    "6 < length (Points (heap (cpu_lap2 cf) ! 0) ! 0)"
    "has_prev (rows_of (cpu_lap2 cf) (Name (heap (cpu_lap2 cf) ! 0))) 0 6"
    "VUint64 150 = Points (heap (cpu_lap2 cf) ! 0) ! 0 ! 6"
    "VUint64 100 = rows_of (cpu_lap2 cf) (Name (heap (cpu_lap2 cf) ! 0)) ! 0 ! 6"
    "consistencyFactor (cpu_lap2 cf) = cf" for cf
    by (simp_all add: cpu_lap2_def has_prev_def rows_of_def)
  have o: "VUint64 50 = Points (heap ?a1 ! 0) ! 0 ! 6" "VUint64 3000 = Points (heap ?a60 ! 0) ! 0 ! 6"
    by (simp_all add: cpu_lap2_after_def)
  have b50: "is_binary64 (of_int 50)" by (rule is_binary64I[of 50 0]) simp_all
  have p1: "is_binary64 (of_int 50 * (of_int 1 * 2 powi 0))"
    by (rule is_binary64I[of 50 0]) simp_all
  have p60: "is_binary64 (of_int 50 * (of_int 60 * 2 powi 0))"
    by (rule is_binary64I[of 3000 0]) simp_all
  have tz1: "toward_zero (of_int 50 * (of_int 1 * 2 powi 0)) = 50"
    and tz60: "toward_zero (of_int 50 * (of_int 60 * 2 powi 0)) = 3000"
    by (simp_all add: toward_zero_def)
  have rp: "representable (signed_type TUint64) (width_of TUint64)
              (toward_zero (of_int 50 * (of_int 1 * 2 powi 0)))"
    "representable (signed_type TUint64) (width_of TUint64)
              (toward_zero (of_int 50 * (of_int 60 * 2 powi 0)))"
    unfolding tz1 tz60 by (simp_all add: representable_def)
  have w1: "50 = wrap (signed_type TUint64) (width_of TUint64)
                   (int_value (VUint64 150) - int_value (VUint64 100))"
    and w1': "wrap False 64 (150 - 100) = 50"
    by (simp_all add: wrap_def)
  have r50: "round_nearest_even (of_int 50) 50"
    using round_nearest_even_self[OF is_binary64I[of 50 0 50]] by simp
  have r25: "round_nearest_even (50 * (of_int 1 * 2 powi (- 1))) 25"
    using round_nearest_even_self[OF is_binary64I[of 25 0 25]] by simp
  have rep: "representable (signed_type TUint64) (width_of TUint64) (toward_zero 25)"
    "representable (signed_type TUint64) (width_of TUint64) (toward_zero 100)"
    by (simp_all add: representable_def toward_zero_def)
  from delta_is_rounded_scaled_difference[OF run0 g(1-5) o(1) t w1 g(6) refl]
  have zero: "int_value (VUint64 50) = toward_zero (of_int 50 * (of_int 1 * 2 powi 0))"
    using b50 p1 rp(1) by blast
  from delta_is_rounded_scaled_difference[OF run60 g(1-5) o(2) t w1 g(6) refl]
  have sixty: "int_value (VUint64 3000) = toward_zero (of_int 50 * (of_int 60 * 2 powi 0))"
    using b50 p60 rp(2) by blast
  from delta_is_rounded_scaled_difference[OF run1 a(1-6) t w1 a(7) refl]
  have one: "int_value (VUint64 25) = toward_zero 25" using r50 r25 rep(1) by blast
  have run2: "DiffFromLast impl_zero (one_cell per_minute (VUint64 100) (VUint64 6100)) (Some 0)
       = Inr (one_cell_after per_minute (VUint64 6100) (VUint64 100), Some 0)"
    by (simp add: one_cell_def one_cell_after_def per_minute_def run_simps)
  have b: "0 < length (Points (heap (one_cell cf old new) ! 0))"
    "0 < length (Points (heap (one_cell cf old new) ! 0) ! 0)"
    "has_prev (rows_of (one_cell cf old new) (Name (heap (one_cell cf old new) ! 0))) 0 0"
    "new = Points (heap (one_cell cf old new) ! 0) ! 0 ! 0"
    "old = rows_of (one_cell cf old new) (Name (heap (one_cell cf old new) ! 0)) ! 0 ! 0"
    "out = Points (heap (one_cell_after cf new out) ! 0) ! 0 ! 0"
    "consistencyFactor (one_cell cf old new) = cf" for cf old new out
    by (simp_all add: one_cell_def one_cell_after_def has_prev_def rows_of_def)
  have w2: "6000 = wrap (signed_type TUint64) (width_of TUint64)
                     (int_value (VUint64 6100) - int_value (VUint64 100))"
    and w2': "wrap False 64 (6100 - 100) = 6000"
    by (simp_all add: wrap_def)
  have r6000: "round_nearest_even (of_int 6000) 6000"
    using round_nearest_even_self[OF is_binary64I[of 6000 0 6000]] by simp
  have "f64_round (6000 * 4803839602528529) (- 58) = Finite 7036874417766400 (- 46)"
    by (simp add: f64_round_def Let_def round_even_def bitlen.simps)
  from f64_round_correct[OF this]
  have r100: "round_nearest_even (6000 * (of_int 4803839602528529 * 2 powi (- 58))) 100"
    by (simp add: power_int_def power_divide)
  have exact99: "toward_zero (6000 * (of_int 4803839602528529 * 2 powi (- 58))) = 99"
    by (simp add: toward_zero_def power_int_def power_divide)
  have cf2: "consistencyFactor (one_cell per_minute old new) = Finite 4803839602528529 (- 58)"
    for old new
    by (simp add: one_cell_def per_minute_def)
  from delta_is_rounded_scaled_difference[OF run2 b(1-6) t w2 cf2 refl]
  have two: "int_value (VUint64 100) = toward_zero 100" using r6000 r100 rep(2) by blast
  have run3: "DiffFromLast impl_zero (one_cell ?half (VInt 30) (VInt 3)) (Some 0)
       = Inr (one_cell_after ?half (VInt 3) (VInt (- 13)), Some 0)"
    by (simp add: one_cell_def one_cell_after_def run_simps)
  have ti: "TInt = type_of (VInt v)" "integer_type TInt" for v by simp_all
  have w3: "- 27 = wrap (signed_type TInt) (width_of TInt) (int_value (VInt 3) - int_value (VInt 30))"
    and w3': "wrap True 64 (3 - 30) = - 27"
    by (simp_all add: wrap_def)
  have b27: "is_binary64 (of_int (- 27))"
    by (rule is_binary64I[of "- 27" 0]) simp_all
  have b13: "is_binary64 (of_int (- 27) * (of_int 1 * 2 powi (- 1)))"
    by (rule is_binary64I[of "- 27" "- 1"]) simp_all
  have tz: "toward_zero (of_int (- 27) * (of_int 1 * 2 powi (- 1))) = - 13"
    by (simp add: toward_zero_def power_int_def power_divide)
  have rep3: "representable (signed_type TInt) (width_of TInt)
                (toward_zero (of_int (- 27) * (of_int 1 * 2 powi (- 1))))"
    unfolding tz by (simp add: representable_def)
  from delta_is_rounded_scaled_difference[OF run3 b(1-6) ti w3 b(7) refl]
  have three: "int_value (VInt (- 13)) = toward_zero (of_int (- 27) * (of_int 1 * 2 powi (- 1)))"
    using b27 b13 rep3 by blast
  have hp: "has_prev (rows_of (cpu_lap2 ?half) ''host.cpu'') 0 6"
    using a(3) by (simp add: cpu_lap2_def)
  show ?thesis
    using run0 zero tz1 run60 sixty tz60 run1 hp w1' r50 r25 one run2 w2' r6000 r100 exact99 two
      run3 w3' three tz
    by blast
qed

subsection \<open>C5: the incomplete signal\<close>

text \<open>
  Claim C5 says that every table whose name has never been seen gives the incomplete
  signal.  Counterexample: the disks table of a host without block devices has no rows;
  its name has never been seen, and the call returns the table itself, not nil; the
  sampler \<open>disks\<close> sends that pointer in its first lap.
\<close>

theorem empty_new_table_is_complete_counterexample:
  "last_series disks_empty ''host.disks'' = None
   \<and> Name (heap disks_empty ! 0) = ''host.disks''
   \<and> DiffFromLast impl_zero disks_empty (Some 0) = Inr (disks_empty_after, Some 0)
   \<and> disks impl_zero (host_env 100 empty_diskstats) ''host.'' start_state
       = Inr (\<lparr>globals = disks_empty_after, ch = [Some 0]\<rparr>, None)"
  by (simp add: disks_empty_def disks_empty_after_def host_env_def empty_diskstats_def
      start_state_def sampler_simps run_simps)

text \<open>
  Claim C5 as amended: when the table has a cell \<open>(i, j)\<close> with no cached predecessor
  (which is so for every cell of a table whose name has never been seen), and the
  cached cells have the types of the new ones, the call returns nil and the cache
  afterwards holds the raw value of every cell that had no predecessor.
\<close>

theorem new_cell_gives_incomplete_and_baseline:
  assumes "p < length (heap w)"
    and "name = Name (heap w ! p)"
    and "pts = Points (heap w ! p)"
    and "types_agree (rows_of w name) pts"
    and "i < length pts" and "j < length (pts ! i)"
    and "last_series w name = None \<or> \<not> has_prev (rows_of w name) i j"
  shows "\<exists>w'. DiffFromLast impl w (Some p) = Inr (w', None)
       \<and> (\<forall>k m. k < length pts \<and> m < length (pts ! k) \<and> \<not> has_prev (rows_of w name) k m
             \<longrightarrow> has_prev (rows_of w' name) k m \<and> rows_of w' name ! k ! m = pts ! k ! m)"
proof -
  from DiffFromLast_returns[of p w impl] assms(1-4) obtain w' r where
    run: "DiffFromLast impl w (Some p) = Inr (w', r)" by auto
  have new: "\<not> has_prev (rows_of w name) i j"
    using assms(7) by (auto simp: rows_of_def has_prev_def)
  note E = DiffFromLast_effect[OF run, folded assms(2) assms(3)]
  have "r = None" using E(13) assms(5,6) new by auto
  moreover have "has_prev (rows_of w' name) k m \<and> rows_of w' name ! k ! m = pts ! k ! m"
    if "k < length pts" "m < length (pts ! k)" for k m
    using E(6) E(8)[OF that(1)] E(9)[OF that] that by (auto simp: has_prev_def)
  ultimately show ?thesis using run by blast
qed

text \<open>
  The amended claim C5 on a cpus table that shows a second core for the first time.
\<close>

theorem new_cell_gives_incomplete_and_baseline_witness:
  "DiffFromLast impl_zero cpus_grown (Some 0) = Inr (cpus_grown_after, None)
   \<and> types_agree (rows_of cpus_grown ''host.cpus'') (Points (heap cpus_grown ! 0))
   \<and> \<not> has_prev (rows_of cpus_grown ''host.cpus'') 1 1
   \<and> has_prev (rows_of cpus_grown_after ''host.cpus'') 1 1
   \<and> rows_of cpus_grown_after ''host.cpus'' ! 1 ! 1 = VUint64 30"
proof -
  have run: "DiffFromLast impl_zero cpus_grown (Some 0) = Inr (cpus_grown_after, None)"
    by (simp add: cpus_grown_def cpus_grown_after_def run_simps)
  have a: "0 < length (heap cpus_grown)"
    "''host.cpus'' = Name (heap cpus_grown ! 0)"
    "[[VString ''cpu0'', VUint64 150], [VString ''cpu1'', VUint64 30]] = Points (heap cpus_grown ! 0)"
    "types_agree (rows_of cpus_grown ''host.cpus'') [[VString ''cpu0'', VUint64 150], [VString ''cpu1'', VUint64 30]]"
    "1 < length [[VString ''cpu0'', VUint64 150], [VString ''cpu1'', VUint64 30]]"
    "1 < length ([[VString ''cpu0'', VUint64 150], [VString ''cpu1'', VUint64 30]] ! 1)"
    "last_series cpus_grown ''host.cpus'' = None \<or> \<not> has_prev (rows_of cpus_grown ''host.cpus'') 1 1"
    by (simp_all add: cpus_grown_def types_agree_def rows_of_def has_prev_def)
  from new_cell_gives_incomplete_and_baseline[OF a, of impl_zero] obtain w' where
    w': "DiffFromLast impl_zero cpus_grown (Some 0) = Inr (w', None)" and
    base: "\<forall>k m. k < length [[VString ''cpu0'', VUint64 150], [VString ''cpu1'', VUint64 30]]
             \<and> m < length ([[VString ''cpu0'', VUint64 150], [VString ''cpu1'', VUint64 30]] ! k)
             \<and> \<not> has_prev (rows_of cpus_grown ''host.cpus'') k m
           \<longrightarrow> has_prev (rows_of w' ''host.cpus'') k m
             \<and> rows_of w' ''host.cpus'' ! k ! m
                 = [[VString ''cpu0'', VUint64 150], [VString ''cpu1'', VUint64 30]] ! k ! m"
    by blast
  from w' run have eq: "w' = cpus_grown_after" by simp
  have new: "\<not> has_prev (rows_of cpus_grown ''host.cpus'') 1 1"
    by (simp add: cpus_grown_def rows_of_def has_prev_def)
  from base[rule_format, of 1 1] new
  have "has_prev (rows_of cpus_grown_after ''host.cpus'') 1 1
      \<and> rows_of cpus_grown_after ''host.cpus'' ! 1 ! 1 = VUint64 30"
    unfolding eq by simp
  moreover have "types_agree (rows_of cpus_grown ''host.cpus'') (Points (heap cpus_grown ! 0))"
    using a(4) unfolding a(3) .
  ultimately show ?thesis using run new by simp
qed

subsection \<open>C6: the tables of mem, swap, uptime, load and mounts\<close>

text \<open>
  Claim C6: the samplers mem, swap, uptime, load and mounts leave the snapshot cache as it
  is and send either nil or the pointer to the table they built; that table holds the
  values read from the operating system (for mounts, one row per line of
  \<open>/proc/mounts\<close> that is kept, with block counts times block size).
\<close>

theorem non_counter_tables_are_sent_raw:
  assumes "p = length (heap (globals st))"
  shows "(\<forall>st' err. mem impl e prefix st = Inr (st', err) \<longrightarrow>
            last_series (globals st') = last_series (globals st)
          \<and> (case mem_Get e of
               Inl x \<Rightarrow> ch st' = ch st @ [None]
             | Inr m \<Rightarrow> ch st' = ch st @ [Some p]
                 \<and> heap (globals st') = heap (globals st) @
                     [\<lparr>Name = prefix @ ''mem'',
                       Columns = [''free'', ''used'', ''actualfree'', ''actualused'', ''total''],
                       Points = [[VUint64 (mem_Free m), VUint64 (mem_Used m),
                                  VUint64 (mem_ActualFree m), VUint64 (mem_ActualUsed m),
                                  VUint64 (mem_Total m)]]\<rparr>]))
       \<and> (\<forall>st' err. swap impl e prefix st = Inr (st', err) \<longrightarrow>
            last_series (globals st') = last_series (globals st)
          \<and> (case swap_Get e of
               Inl x \<Rightarrow> ch st' = ch st @ [None]
             | Inr s \<Rightarrow> ch st' = ch st @ [Some p]
                 \<and> heap (globals st') = heap (globals st) @
                     [\<lparr>Name = prefix @ ''swap'', Columns = [''free'', ''used'', ''total''],
                       Points = [[VUint64 (swap_Free s), VUint64 (swap_Used s),
                                  VUint64 (swap_Total s)]]\<rparr>]))
       \<and> (\<forall>st' err. uptime impl e prefix st = Inr (st', err) \<longrightarrow>
            last_series (globals st') = last_series (globals st)
          \<and> (case uptime_Get e of
               Inl x \<Rightarrow> ch st' = ch st @ [None]
             | Inr l \<Rightarrow> ch st' = ch st @ [Some p]
                 \<and> heap (globals st') = heap (globals st) @
                     [\<lparr>Name = prefix @ ''uptime'', Columns = [''length''],
                       Points = [[VFloat64 l]]\<rparr>]))
       \<and> (\<forall>st' err. load impl e prefix st = Inr (st', err) \<longrightarrow>
            last_series (globals st') = last_series (globals st)
          \<and> (case load_Get e of
               Inl x \<Rightarrow> ch st' = ch st @ [None]
             | Inr l \<Rightarrow> ch st' = ch st @ [Some p]
                 \<and> heap (globals st') = heap (globals st) @
                     [\<lparr>Name = prefix @ ''load'', Columns = [''one'', ''five'', ''fifteen''],
                       Points = [[VFloat64 (load_One l), VFloat64 (load_Five l),
                                  VFloat64 (load_Fifteen l)]]\<rparr>]))
       \<and> (\<forall>st' err. mounts impl e prefix st = Inr (st', err) \<longrightarrow>
            last_series (globals st') = last_series (globals st)
          \<and> (case err of
               Some x \<Rightarrow> ch st' = ch st
             | None \<Rightarrow> ch st' = ch st @ [Some p]
                 \<and> (\<exists>lines. Open e ''/proc/mounts'' = Inr lines
                      \<and> heap (globals st') = heap (globals st) @
                          [\<lparr>Name = prefix @ ''mounts'',
                            Columns = [''mountpoint'', ''disk'', ''free'', ''total''],
                            Points = map (mounts_point e) (filter (mounts_kept e) lines)\<rparr>])))"
proof -
  have m: "\<forall>st' err. mem impl e prefix st = Inr (st', err) \<longrightarrow>
            last_series (globals st') = last_series (globals st)
          \<and> (case mem_Get e of
               Inl x \<Rightarrow> ch st' = ch st @ [None]
             | Inr m \<Rightarrow> ch st' = ch st @ [Some p]
                 \<and> heap (globals st') = heap (globals st) @
                     [\<lparr>Name = prefix @ ''mem'',
                       Columns = [''free'', ''used'', ''actualfree'', ''actualused'', ''total''],
                       Points = [[VUint64 (mem_Free m), VUint64 (mem_Used m),
                                  VUint64 (mem_ActualFree m), VUint64 (mem_ActualUsed m),
                                  VUint64 (mem_Total m)]]\<rparr>])"
    using assms
    by (auto simp: mem_def new_series_def add_point_def chan_send_def Let_def split: sum.splits)
  have s: "\<forall>st' err. swap impl e prefix st = Inr (st', err) \<longrightarrow>
            last_series (globals st') = last_series (globals st)
          \<and> (case swap_Get e of
               Inl x \<Rightarrow> ch st' = ch st @ [None]
             | Inr s \<Rightarrow> ch st' = ch st @ [Some p]
                 \<and> heap (globals st') = heap (globals st) @
                     [\<lparr>Name = prefix @ ''swap'', Columns = [''free'', ''used'', ''total''],
                       Points = [[VUint64 (swap_Free s), VUint64 (swap_Used s),
                                  VUint64 (swap_Total s)]]\<rparr>])"
    using assms
    by (auto simp: swap_def new_series_def add_point_def chan_send_def Let_def split: sum.splits)
  have u: "\<forall>st' err. uptime impl e prefix st = Inr (st', err) \<longrightarrow>
            last_series (globals st') = last_series (globals st)
          \<and> (case uptime_Get e of
               Inl x \<Rightarrow> ch st' = ch st @ [None]
             | Inr l \<Rightarrow> ch st' = ch st @ [Some p]
                 \<and> heap (globals st') = heap (globals st) @
                     [\<lparr>Name = prefix @ ''uptime'', Columns = [''length''],
                       Points = [[VFloat64 l]]\<rparr>])"
    using assms
    by (auto simp: uptime_def new_series_def add_point_def chan_send_def Let_def split: sum.splits)
  have l: "\<forall>st' err. load impl e prefix st = Inr (st', err) \<longrightarrow>
            last_series (globals st') = last_series (globals st)
          \<and> (case load_Get e of
               Inl x \<Rightarrow> ch st' = ch st @ [None]
             | Inr l \<Rightarrow> ch st' = ch st @ [Some p]
                 \<and> heap (globals st') = heap (globals st) @
                     [\<lparr>Name = prefix @ ''load'', Columns = [''one'', ''five'', ''fifteen''],
                       Points = [[VFloat64 (load_One l), VFloat64 (load_Five l),
                                  VFloat64 (load_Fifteen l)]]\<rparr>])"
    using assms
    by (auto simp: load_def new_series_def add_point_def chan_send_def Let_def split: sum.splits)
  have mo: "last_series (globals st') = last_series (globals st)
          \<and> (case err of
               Some x \<Rightarrow> ch st' = ch st
             | None \<Rightarrow> ch st' = ch st @ [Some p]
                 \<and> (\<exists>lines. Open e ''/proc/mounts'' = Inr lines
                      \<and> heap (globals st') = heap (globals st) @
                          [\<lparr>Name = prefix @ ''mounts'',
                            Columns = [''mountpoint'', ''disk'', ''free'', ''total''],
                            Points = map (mounts_point e) (filter (mounts_kept e) lines)\<rparr>]))"
    if run: "mounts impl e prefix st = Inr (st', err)" for st' err
  proof -
    define s0 where "s0 = \<lparr>Name = prefix @ ''mounts'',
         Columns = [''mountpoint'', ''disk'', ''free'', ''total''], Points = []\<rparr>"
    define st1 where "st1 = st\<lparr>globals := (globals st)\<lparr>heap := heap (globals st) @ [s0]\<rparr>\<rparr>"
    have st1: "ch st1 = ch st" "last_series (globals st1) = last_series (globals st)"
      "heap (globals st1) = heap (globals st) @ [s0]" "p < length (heap (globals st1))"
      "heap (globals st1) ! p = s0"
      using assms by (simp_all add: st1_def)
    show ?thesis
    proof (cases "Open e ''/proc/mounts''")
      case (Inl x)
      with run have "st' = st1" "err = Some x"
        by (auto simp: mounts_def new_series_def s0_def st1_def assms)
      then show ?thesis using st1 by simp
    next
      case (Inr lines)
      with run obtain st2 r where
        scan: "mounts_lines e p lines st1 = Inr (st2, r)" and
        res: "(st', err) = (case r of Some x \<Rightarrow> (st2, Some x) | None \<Rightarrow> (chan_send (Some p) st2, None))"
        by (auto simp: mounts_def new_series_def s0_def st1_def assms split: sum.splits option.splits)
      note M = mounts_lines_props[OF scan]
      show ?thesis
      proof (cases r)
        case (Some x)
        with res M st1 show ?thesis by simp
      next
        case None
        with M st1 have "heap (globals st2) = heap (globals st) @
            [s0\<lparr>Points := map (mounts_point e) (filter (mounts_kept e) lines)\<rparr>]"
          using assms by (simp add: s0_def)
        with None res M st1 Inr show ?thesis by (simp add: chan_send_def s0_def)
      qed
    qed
  qed
  from m s u l mo show ?thesis by blast
qed

text \<open>
  Claim C6 on a host with one real mount: the memory table and the mounts table as
  sent.
\<close>

theorem non_counter_tables_are_sent_raw_witness:
  "0 = length (heap (globals start_state))
   \<and> mem impl_zero (host_env 100 proc_mounts) ''host.'' start_state
       = Inr (\<lparr>globals = \<lparr>consistencyFactor = Finite 1 0, last_series = Map.empty,
                 heap = [\<lparr>Name = ''host.mem'',
                          Columns = [''free'', ''used'', ''actualfree'', ''actualused'', ''total''],
                          Points = [[VUint64 2004123648, VUint64 6305091584, VUint64 3761774592,
                                     VUint64 4547440640, VUint64 8309215232]]\<rparr>]\<rparr>,
               ch = [Some 0]\<rparr>, None)
   \<and> mounts impl_zero (host_env 100 proc_mounts) ''host.'' start_state
       = Inr (\<lparr>globals = \<lparr>consistencyFactor = Finite 1 0, last_series = Map.empty,
                 heap = [\<lparr>Name = ''host.mounts'',
                          Columns = [''mountpoint'', ''disk'', ''free'', ''total''],
                          Points = [[VString ''/'', VString ''/dev/sda2'', VUint64 1024000,
                                     VUint64 4096000]]\<rparr>]\<rparr>,
               ch = [Some 0]\<rparr>, None)
   \<and> map (mounts_point (host_env 100 proc_mounts))
        (filter (mounts_kept (host_env 100 proc_mounts))
           [''proc /proc proc rw 0 0'', ''/dev/sda2 / ext4 rw 0 0'', ''none /x ext4 rw 0 0''])
       = [[VString ''/'', VString ''/dev/sda2'', VUint64 1024000, VUint64 4096000]]"
proof -
  let ?E = "host_env 100 proc_mounts"
  let ?m = "\<lparr>globals = \<lparr>consistencyFactor = Finite 1 0, last_series = Map.empty,
                 heap = [\<lparr>Name = ''host.mem'',
                          Columns = [''free'', ''used'', ''actualfree'', ''actualused'', ''total''],
                          Points = [[VUint64 2004123648, VUint64 6305091584, VUint64 3761774592,
                                     VUint64 4547440640, VUint64 8309215232]]\<rparr>]\<rparr>,
               ch = [Some 0]\<rparr>"
  let ?mo = "\<lparr>globals = \<lparr>consistencyFactor = Finite 1 0, last_series = Map.empty,
                 heap = [\<lparr>Name = ''host.mounts'',
                          Columns = [''mountpoint'', ''disk'', ''free'', ''total''],
                          Points = [[VString ''/'', VString ''/dev/sda2'', VUint64 1024000,
                                     VUint64 4096000]]\<rparr>]\<rparr>,
               ch = [Some 0]\<rparr>"
  have p: "0 = length (heap (globals start_state))" by (simp add: start_state_def)
  have run_mem: "mem impl_zero ?E ''host.'' start_state = Inr (?m, None)"
    by (simp add: host_env_def start_state_def sampler_simps)
  have run_mounts: "mounts impl_zero ?E ''host.'' start_state = Inr (?mo, None)"
    by (simp add: host_env_def proc_mounts_def start_state_def sampler_simps split_spaces_def
        sysfs_def)
  note T = non_counter_tables_are_sent_raw[OF p, of impl_zero ?E "''host.''"]
  from T run_mounts obtain lines where
    lines: "Open ?E ''/proc/mounts'' = Inr lines" and
    h: "heap (globals ?mo) = heap (globals start_state) @
          [\<lparr>Name = ''host.'' @ ''mounts'', Columns = [''mountpoint'', ''disk'', ''free'', ''total''],
            Points = map (mounts_point ?E) (filter (mounts_kept ?E) lines)\<rparr>]"
    by fastforce
  from lines have "lines = [''proc /proc proc rw 0 0'', ''/dev/sda2 / ext4 rw 0 0'', ''none /x ext4 rw 0 0'']"
    by (simp add: host_env_def proc_mounts_def)
  with h have "map (mounts_point ?E) (filter (mounts_kept ?E)
           [''proc /proc proc rw 0 0'', ''/dev/sda2 / ext4 rw 0 0'', ''none /x ext4 rw 0 0''])
       = [[VString ''/'', VString ''/dev/sda2'', VUint64 1024000, VUint64 4096000]]"
    by (simp add: start_state_def)
  with p run_mem run_mounts show ?thesis by blast
qed

subsection \<open>C7: the cache after a call\<close>

text \<open>
  Claim C7: after a call of DiffFromLast that returns, the cache has an entry for the
  name of the table, and for every row \<open>i\<close> and column \<open>j\<close> of the table that entry holds
  the raw value of the cell at \<open>(i, j)\<close>, whichever branch the cell took.
\<close>

theorem cache_holds_raw_after_call:
  assumes "DiffFromLast impl w (Some p) = Inr (w', r)"
    and "i < length (Points (heap w ! p))"
    and "j < length (Points (heap w ! p) ! i)"
  shows "last_series w' (Name (heap w ! p)) = Some (rows_of w' (Name (heap w ! p)))
       \<and> has_prev (rows_of w' (Name (heap w ! p))) i j
       \<and> rows_of w' (Name (heap w ! p)) ! i ! j = Points (heap w ! p) ! i ! j"
proof -
  note E = DiffFromLast_effect[OF assms(1)]
  have "last_series w' (Name (heap w ! p)) = Some (rows_of w' (Name (heap w ! p)))"
    using E(4) by simp
  moreover have "i < length (rows_of w' (Name (heap w ! p)))"
    using E(6) assms(2) by simp
  moreover have "j < length (rows_of w' (Name (heap w ! p)) ! i)"
    using E(8)[OF assms(2)] assms(3) by simp
  moreover have "rows_of w' (Name (heap w ! p)) ! i ! j = Points (heap w ! p) ! i ! j"
    using E(9)[OF assms(2,3)] .
  ultimately show ?thesis by (simp add: has_prev_def)
qed

text \<open>
  Claim C7 on a cpus table with one known and one new core: the cell \<open>(0, 1)\<close> took the
  delta branch, the cell \<open>(1, 1)\<close> the baseline branch, and the cache holds the raw values
  150 and 30.
\<close>

theorem cache_holds_raw_after_call_witness:
  "DiffFromLast impl_zero cpus_grown (Some 0) = Inr (cpus_grown_after, None)
   \<and> rows_of cpus_grown_after ''host.cpus'' ! 0 ! 1 = VUint64 150
   \<and> rows_of cpus_grown_after ''host.cpus'' ! 1 ! 1 = VUint64 30
   \<and> has_prev (rows_of cpus_grown ''host.cpus'') 0 1
   \<and> \<not> has_prev (rows_of cpus_grown ''host.cpus'') 1 1"
proof -
  have run: "DiffFromLast impl_zero cpus_grown (Some 0) = Inr (cpus_grown_after, None)"
    by (simp add: cpus_grown_def cpus_grown_after_def run_simps)
  have a: "0 < length (Points (heap cpus_grown ! 0))" "1 < length (Points (heap cpus_grown ! 0))"
    "1 < length (Points (heap cpus_grown ! 0) ! 0)" "1 < length (Points (heap cpus_grown ! 0) ! 1)"
    by (simp_all add: cpus_grown_def)
  from cache_holds_raw_after_call[OF run a(1) a(3)] cache_holds_raw_after_call[OF run a(2) a(4)]
  show ?thesis using run by (simp add: cpus_grown_def has_prev_def rows_of_def)
qed

subsection \<open>C8: the argument is overwritten in place\<close>

text \<open>
  Claim C8: a call of DiffFromLast that returns changes no object of the heap but its
  argument, and of the argument only the points; it allocates no copy.  The result is
  the pointer it was given when every cell had a previous value, and nil otherwise; in
  both cases every cell of the argument now holds the value computed by the type
  switch, so the raw table is gone.
\<close>

theorem argument_is_overwritten_in_place:
  assumes "DiffFromLast impl w (Some p) = Inr (w', r)"
    and "s = heap w ! p"
    and "pts' = Points (heap w' ! p)"
  shows "heap w' = (heap w)[p := s\<lparr>Points := pts'\<rparr>]
       \<and> length (heap w') = length (heap w)
       \<and> (r = Some p \<or> r = None)
       \<and> (r = Some p \<longleftrightarrow>
            (\<forall>i j. i < length (Points s) \<and> j < length (Points s ! i)
               \<longrightarrow> has_prev (rows_of w (Name s)) i j))
       \<and> length pts' = length (Points s)
       \<and> (\<forall>i. i < length (Points s) \<longrightarrow> length (pts' ! i) = length (Points s ! i))
       \<and> (\<forall>i j. i < length (Points s) \<and> j < length (Points s ! i) \<longrightarrow>
             diff_switch impl (consistencyFactor w) (Points s ! i ! j)
               (tmp_of (rows_of w (Name s)) (Points s) i j) = Inr (pts' ! i ! j))"
proof -
  note E = DiffFromLast_effect[OF assms(1), folded assms(2), folded assms(3)]
  have "heap w' = (heap w)[p := s\<lparr>Points := pts'\<rparr>]" by (rule E(3))
  moreover from this have "length (heap w') = length (heap w)" by simp
  moreover have "r = Some p \<or> r = None" using E(13) by simp
  moreover have "r = Some p \<longleftrightarrow>
            (\<forall>i j. i < length (Points s) \<and> j < length (Points s ! i)
               \<longrightarrow> has_prev (rows_of w (Name s)) i j)"
    using E(13) by auto
  moreover have "length pts' = length (Points s)" by (rule E(5))
  moreover have "\<forall>i. i < length (Points s) \<longrightarrow> length (pts' ! i) = length (Points s ! i)"
    using E(7) by blast
  moreover have "\<forall>i j. i < length (Points s) \<and> j < length (Points s ! i) \<longrightarrow>
             diff_switch impl (consistencyFactor w) (Points s ! i ! j)
               (tmp_of (rows_of w (Name s)) (Points s) i j) = Inr (pts' ! i ! j)"
    using E(10) by blast
  ultimately show ?thesis by blast
qed

text \<open>
  Claim C8 on an incomplete call (the argument is overwritten although nil is
  returned) and on a complete one (the same pointer is returned).
\<close>

theorem argument_is_overwritten_in_place_witness:
  "DiffFromLast impl_zero cpus_grown (Some 0) = Inr (cpus_grown_after, None)
   \<and> heap cpus_grown_after
       = (heap cpus_grown)[0 := (heap cpus_grown ! 0)
           \<lparr>Points := [[VString ''cpu0'', VUint64 50], [VString ''cpu1'', VUint64 0]]\<rparr>]
   \<and> Points (heap cpus_grown ! 0) = [[VString ''cpu0'', VUint64 150], [VString ''cpu1'', VUint64 30]]
   \<and> DiffFromLast impl_zero (cpu_lap2 (Finite 1 0)) (Some 0)
       = Inr (cpu_lap2_after (Finite 1 0)
                [VString ''cpu'', VUint64 5, VUint64 0, VUint64 5, VUint64 35, VUint64 5, VUint64 50],
              Some 0)"
proof -
  have run: "DiffFromLast impl_zero cpus_grown (Some 0) = Inr (cpus_grown_after, None)"
    by (simp add: cpus_grown_def cpus_grown_after_def run_simps)
  have run2: "DiffFromLast impl_zero (cpu_lap2 (Finite 1 0)) (Some 0)
       = Inr (cpu_lap2_after (Finite 1 0)
                [VString ''cpu'', VUint64 5, VUint64 0, VUint64 5, VUint64 35, VUint64 5, VUint64 50],
              Some 0)"
    by (simp add: cpu_lap2_def cpu_lap2_after_def run_simps)
  from argument_is_overwritten_in_place[OF run refl refl]
  have "heap cpus_grown_after
       = (heap cpus_grown)[0 := (heap cpus_grown ! 0)\<lparr>Points := Points (heap cpus_grown_after ! 0)\<rparr>]"
    by blast
  then show ?thesis using run run2 by (simp add: cpus_grown_def cpus_grown_after_def)
qed

subsection \<open>C9: the cache only grows\<close>

text \<open>
  Claim C9, on two consecutive calls for the same table name.  After the first call the
  cache for that name has at least the rows and cells it had, the entries of other
  names are untouched, every cached cell outside the shape of the table keeps its
  value, and the result is complete exactly when every cell of the table itself had a
  previous value (rows that disappeared raise no incomplete signal).  In the second
  call, a cell that was outside the first table and is inside the second is diffed
  against the stale value from before the first call.
\<close>

theorem cache_only_grows:
  assumes "DiffFromLast impl w (Some p) = Inr (w1, r1)"
    and "DiffFromLast impl w1 (Some q) = Inr (w2, r2)"
    and "name = Name (heap w ! p)"
    and "Name (heap w1 ! q) = name"
    and "ls = rows_of w name" and "pts = Points (heap w ! p)"
    and "ls1 = rows_of w1 name" and "pts2 = Points (heap w1 ! q)"
  shows "length ls \<le> length ls1
       \<and> (\<forall>i. i < length ls \<longrightarrow> length (ls ! i) \<le> length (ls1 ! i))
       \<and> (\<forall>n. n \<noteq> name \<longrightarrow> last_series w1 n = last_series w n)
       \<and> last_series w1 name = Some ls1
       \<and> (\<forall>i j. has_prev ls i j \<and> \<not> (i < length pts \<and> j < length (pts ! i))
             \<longrightarrow> has_prev ls1 i j \<and> ls1 ! i ! j = ls ! i ! j)
       \<and> (r1 = Some p \<longleftrightarrow>
            (\<forall>i j. i < length pts \<and> j < length (pts ! i) \<longrightarrow> has_prev ls i j))
       \<and> (\<forall>i j. has_prev ls i j \<and> \<not> (i < length pts \<and> j < length (pts ! i))
               \<and> i < length pts2 \<and> j < length (pts2 ! i)
             \<longrightarrow> diff_switch impl (consistencyFactor w) (pts2 ! i ! j) (ls ! i ! j)
                   = Inr (Points (heap w2 ! q) ! i ! j))"
proof -
  note E = DiffFromLast_effect[OF assms(1), folded assms(3), folded assms(5) assms(6) assms(7)]
  note F = DiffFromLast_effect[OF assms(2), unfolded assms(4), folded assms(7) assms(8)]
  have len: "length ls \<le> length ls1" using E(6) by simp
  have rowlen: "length (ls ! i) \<le> length (ls1 ! i)" if "i < length ls" for i
  proof (cases "i < length pts")
    case True
    then show ?thesis using E(8)[OF True] that by (simp add: row_of_def)
  next
    case False
    then show ?thesis using E(11)[OF that] by simp
  qed
  have others: "last_series w1 n = last_series w n" if "n \<noteq> name" for n
    using E(4) that by simp
  have entry: "last_series w1 name = Some ls1" using E(4) by simp
  have stale: "has_prev ls1 i j \<and> ls1 ! i ! j = ls ! i ! j"
    if "has_prev ls i j" "\<not> (i < length pts \<and> j < length (pts ! i))" for i j
  proof (cases "i < length pts")
    case True
    with that have j: "length (pts ! i) \<le> j" by simp
    have "ls1 ! i ! j = ls ! i ! j" using E(12)[OF True that(1) j] .
    moreover have "has_prev ls1 i j"
      using that(1) E(6) E(8)[OF True] by (auto simp: has_prev_def row_of_def)
    ultimately show ?thesis by simp
  next
    case False
    from that(1) have i: "i < length ls" by (simp add: has_prev_def)
    have "ls1 ! i = ls ! i" using E(11)[OF i] False by simp
    then show ?thesis using that(1) len by (auto simp: has_prev_def)
  qed
  have compl: "r1 = Some p \<longleftrightarrow>
            (\<forall>i j. i < length pts \<and> j < length (pts ! i) \<longrightarrow> has_prev ls i j)"
    using E(13) by auto
  have again: "diff_switch impl (consistencyFactor w) (pts2 ! i ! j) (ls ! i ! j)
                   = Inr (Points (heap w2 ! q) ! i ! j)"
    if "has_prev ls i j" "\<not> (i < length pts \<and> j < length (pts ! i))"
       "i < length pts2" "j < length (pts2 ! i)" for i j
  proof -
    from stale[OF that(1,2)] have "tmp_of ls1 pts2 i j = ls ! i ! j"
      by (simp add: tmp_of_def)
    with F(10)[OF that(3,4)] E(2) show ?thesis by simp
  qed
  show ?thesis using len rowlen others entry stale compl again by blast
qed

text \<open>
  Claim C9 on a network table that loses the interface eth1 for one lap: the lap is
  complete, the cached 20 of eth1 persists, and when eth1 is back with 50 the reported
  delta is 30.
\<close>

theorem cache_only_grows_witness:
  "DiffFromLast impl_zero net_shrunk (Some 0) = Inr (net_shrunk_mid, Some 0)
   \<and> DiffFromLast impl_zero net_shrunk_mid (Some 1) = Inr (net_shrunk_end, Some 1)
   \<and> has_prev (rows_of net_shrunk ''host.network'') 1 1
   \<and> \<not> (1 < length (Points (heap net_shrunk ! 0)))
   \<and> rows_of net_shrunk ''host.network'' ! 1 ! 1 = VInt 20
   \<and> rows_of net_shrunk_mid ''host.network'' ! 1 ! 1 = VInt 20
   \<and> Points (heap net_shrunk_mid ! 1) ! 1 ! 1 = VInt 50
   \<and> diff_switch impl_zero (Finite 1 0) (VInt 50) (VInt 20) = Inr (VInt 30)
   \<and> Points (heap net_shrunk_end ! 1) ! 1 ! 1 = VInt 30"
proof -
  have run1: "DiffFromLast impl_zero net_shrunk (Some 0) = Inr (net_shrunk_mid, Some 0)"
    by (simp add: net_shrunk_def net_shrunk_mid_def run_simps)
  have run2: "DiffFromLast impl_zero net_shrunk_mid (Some 1) = Inr (net_shrunk_end, Some 1)"
    by (simp add: net_shrunk_mid_def net_shrunk_end_def run_simps)
  have nm: "Name (heap net_shrunk_mid ! 1) = Name (heap net_shrunk ! 0)"
    by (simp add: net_shrunk_def net_shrunk_mid_def)
  note T = cache_only_grows[OF run1 run2 refl nm refl refl refl refl]
  have a: "has_prev (rows_of net_shrunk (Name (heap net_shrunk ! 0))) 1 1"
    "\<not> (1 < length (Points (heap net_shrunk ! 0)) \<and> 1 < length (Points (heap net_shrunk ! 0) ! 1))"
    "1 < length (Points (heap net_shrunk_mid ! 1))"
    "1 < length (Points (heap net_shrunk_mid ! 1) ! 1)"
    by (simp_all add: net_shrunk_def net_shrunk_mid_def has_prev_def rows_of_def)
  from T have "has_prev (rows_of net_shrunk (Name (heap net_shrunk ! 0))) 1 1
       \<and> \<not> (1 < length (Points (heap net_shrunk ! 0)) \<and> 1 < length (Points (heap net_shrunk ! 0) ! 1))
       \<and> 1 < length (Points (heap net_shrunk_mid ! 1)) \<and> 1 < length (Points (heap net_shrunk_mid ! 1) ! 1)
     \<longrightarrow> diff_switch impl_zero (consistencyFactor net_shrunk) (Points (heap net_shrunk_mid ! 1) ! 1 ! 1)
           (rows_of net_shrunk (Name (heap net_shrunk ! 0)) ! 1 ! 1)
         = Inr (Points (heap net_shrunk_end ! 1) ! 1 ! 1)"
    by blast
  with a have "diff_switch impl_zero (consistencyFactor net_shrunk) (Points (heap net_shrunk_mid ! 1) ! 1 ! 1)
           (rows_of net_shrunk (Name (heap net_shrunk ! 0)) ! 1 ! 1)
         = Inr (Points (heap net_shrunk_end ! 1) ! 1 ! 1)"
    by blast
  then have "diff_switch impl_zero (Finite 1 0) (VInt 50) (VInt 20) = Inr (Points (heap net_shrunk_end ! 1) ! 1 ! 1)"
    by (simp add: net_shrunk_def net_shrunk_mid_def rows_of_def)
  then show ?thesis using run1 run2
    by (simp add: net_shrunk_def net_shrunk_mid_def net_shrunk_end_def has_prev_def rows_of_def)
qed

subsection \<open>C10: a counter that went backwards\<close>

text \<open>
  Claim C10 says that for every cell of an unsigned type whose new value is below the
  cached one the difference wraps around and the call reports a huge positive delta.
  Counterexample: a uint64 cell whose cached value is \<open>2 ^ 64 - 1\<close> and whose new value is
  0.  The difference wraps around to 1 and, with factor 1, the call reports 1, whatever
  the implementation does with a float64 outside the range of an integer type.
\<close>

theorem wrapped_counter_reports_one_counterexample:
  "\<forall>impl. DiffFromLast impl (one_cell (Finite 1 0) (VUint64 18446744073709551615) (VUint64 0)) (Some 0)
       = Inr (one_cell_after (Finite 1 0) (VUint64 0) (VUint64 1), Some 0)
     \<and> Points (heap (one_cell (Finite 1 0) (VUint64 18446744073709551615) (VUint64 0)) ! 0) ! 0 ! 0
       = VUint64 0
     \<and> rows_of (one_cell (Finite 1 0) (VUint64 18446744073709551615) (VUint64 0)) ''t'' ! 0 ! 0
       = VUint64 18446744073709551615
     \<and> int_value (VUint64 0) < int_value (VUint64 18446744073709551615)
     \<and> Points (heap (one_cell_after (Finite 1 0) (VUint64 0) (VUint64 1)) ! 0) ! 0 ! 0 = VUint64 1
     \<and> int_value (VUint64 1) = 1"
  by (simp add: one_cell_def one_cell_after_def run_simps)

text \<open>
  Claim C10 as amended: for a cell of an unsigned type \<open>T\<close> of width \<open>w\<close> with new value
  \<open>R2\<close> below the cached value \<open>R1\<close>, in a table whose cached cells have the types of the
  new ones, the call returns (no panic), the result is complete exactly when every cell
  of the table had a previous value, and what is scaled is the positive wrapped
  difference \<open>W = 2 ^ w - (R1 - R2)\<close>, never a negative number: the cell holds the float64
  nearest to \<open>W\<close>, times the factor, rounded to float64, with its fraction discarded,
  whenever that integer is in the range of \<open>T\<close>.  With factor 1 the cell holds \<open>W\<close> itself
  when \<open>W\<close> is below \<open>2 ^ 53\<close> (always so for a width up to 32 bits), and a value within
  1024 of \<open>W\<close> when the counter went back by more than 1024; so the reported delta is
  huge exactly when \<open>W\<close> is.  (A 64-bit counter that went back by at most 1024 gives the
  float64 \<open>2 ^ 64\<close>, outside the range of the type.)
\<close>

theorem wrapped_difference_is_scaled:
  assumes "p < length (heap w)"
    and "name = Name (heap w ! p)"
    and "pts = Points (heap w ! p)"
    and "ls = rows_of w name"
    and "types_agree ls pts"
    and "i < length pts" and "j < length (pts ! i)"
    and "has_prev ls i j"
    and "R2 = pts ! i ! j" and "R1 = ls ! i ! j"
    and "T = type_of R2" and "integer_type T" and "\<not> signed_type T"
    and "int_value R2 < int_value R1"
    and "W = 2 ^ width_of T - (int_value R1 - int_value R2)"
  shows "\<exists>w' r. DiffFromLast impl w (Some p) = Inr (w', r)
       \<and> (r = Some p \<longleftrightarrow> (\<forall>k m. k < length pts \<and> m < length (pts ! k) \<longrightarrow> has_prev ls k m))
       \<and> type_of (Points (heap w' ! p) ! i ! j) = T
       \<and> 0 < W \<and> W < 2 ^ width_of T
       \<and> W = wrap False (width_of T) (int_value R2 - int_value R1)
       \<and> (\<forall>m e y1 y2. consistencyFactor w = Finite m e
               \<and> round_nearest_even (of_int W) y1
               \<and> round_nearest_even (y1 * (of_int m * 2 powi e)) y2
               \<and> representable False (width_of T) (toward_zero y2)
             \<longrightarrow> int_value (Points (heap w' ! p) ! i ! j) = toward_zero y2)
       \<and> (consistencyFactor w = Finite 1 0 \<and> W < 2 ^ 53
             \<longrightarrow> int_value (Points (heap w' ! p) ! i ! j) = W)
       \<and> (consistencyFactor w = Finite 1 0 \<and> 1024 < int_value R1 - int_value R2
             \<longrightarrow> \<bar>int_value (Points (heap w' ! p) ! i ! j) - W\<bar> \<le> 1024)"
proof -
  from DiffFromLast_returns[of p w impl] assms(1-5) obtain w' r where
    run: "DiffFromLast impl w (Some p) = Inr (w', r)" by auto
  define out where "out = Points (heap w' ! p) ! i ! j"
  note E = DiffFromLast_effect[OF run, folded assms(2), folded assms(3) assms(4)]
  have sw: "diff_switch impl (consistencyFactor w) R2 R1 = Inr out"
    using E(10)[OF assms(6,7)] assms(8) unfolding out_def assms(9,10) by (simp add: tmp_of_def)
  have compl: "r = Some p \<longleftrightarrow> (\<forall>k m. k < length pts \<and> m < length (pts ! k) \<longrightarrow> has_prev ls k m)"
    using E(13) by auto
  have ty: "type_of out = T" unfolding assms(11) by (rule diff_switch_type[OF sw])
  have T1: "type_of R1 = T"
    unfolding assms(9,10,11) by (rule types_agree_nth[OF assms(5-8)])
  have T2: "integer_type (type_of R2)" "\<not> signed_type (type_of R2)"
    using assms(11-13) by simp_all
  have r2: "0 \<le> int_value R2" by (rule int_value_unsigned(1)[OF T2])
  have r1: "int_value R1 < 2 ^ width_of T"
    using int_value_unsigned(2)[of R1] assms(12,13) unfolding T1 by simp
  have Wpos: "0 < W" "W < 2 ^ width_of T" unfolding assms(15) using r1 r2 assms(14) by linarith+
  have Wwrap: "W = wrap False (width_of T) (int_value R2 - int_value R1)"
    unfolding assms(15) by (rule wrap_backwards[OF r2 assms(14) r1, symmetric])
  have gen: "int_value out = toward_zero y2"
    if "consistencyFactor w = Finite m e" "round_nearest_even (of_int W) y1"
      "round_nearest_even (y1 * (of_int m * 2 powi e)) y2"
      "representable False (width_of T) (toward_zero y2)" for m e y1 y2
  proof -
    from diff_switch_spec[OF sw[unfolded that(1)] T2(1)] that(2-4) T2(2)
    show ?thesis unfolding Wwrap assms(11) by auto
  qed
  have ex: "int_value out = W" if cf: "consistencyFactor w = Finite 1 0" and small: "W < 2 ^ 53"
  proof -
    have b: "is_binary64 (of_int W)"
      by (rule is_binary64I[of W 0]) (use Wpos small in simp_all)
    then have y1: "round_nearest_even (of_int W) (of_int W)" by (rule round_nearest_even_self)
    from b have "round_nearest_even (of_int W * (of_int 1 * 2 powi 0)) (of_int W)"
      using round_nearest_even_self[of "of_int W"] by simp
    moreover have tz: "toward_zero (of_int W) = W" by (simp add: toward_zero_def)
    moreover have "representable False (width_of T) (toward_zero (of_int W))"
      unfolding tz representable_def using Wpos by simp
    ultimately show ?thesis using gen[OF cf y1] by simp
  qed
  have near: "\<bar>int_value out - W\<bar> \<le> 1024"
    if cf: "consistencyFactor w = Finite 1 0" and far: "1024 < int_value R1 - int_value R2"
  proof (cases "W < 2 ^ 53")
    case True
    from ex[OF cf True] show ?thesis by simp
  next
    case False
    have w64: "width_of T = 64"
    proof (rule ccontr)
      assume "width_of T \<noteq> 64"
      with assms(12) have "width_of T \<le> 32" by (cases T) simp_all
      then have "(2::int) ^ width_of T \<le> 2 ^ 32" by (rule power_increasing) simp
      with Wpos(2) False show False by simp
    qed
    have W1: "0 \<le> W" "W < 2 ^ 64 - 1024" using Wpos(1) far unfolding assms(15) w64 by simp_all
    from diff_switch_spec[OF sw[unfolded cf] T2(1)] obtain y1 where
      y1: "round_nearest_even (of_int W) y1" unfolding Wwrap assms(11) using T2(2) by auto
    note F = factor_one_round_trip[OF W1 y1]
    from gen[OF cf y1 F(1) F(2)[folded w64]] F(3) show ?thesis by simp
  qed
  show ?thesis
    using run compl ty Wpos Wwrap gen ex near unfolding out_def by blast
qed

text \<open>
  The amended claim C10 on a uint64 counter that went from 5000000 back to 123, which is
  reported as 18446744073704552448, within 1024 of \<open>2 ^ 64 - 4999877\<close>, and on a uint32
  counter that went from 10 back to 5, which is reported as 4294967291.
\<close>

theorem wrapped_difference_is_scaled_witness:
  "DiffFromLast impl_zero (one_cell (Finite 1 0) (VUint64 5000000) (VUint64 123)) (Some 0)
     = Inr (one_cell_after (Finite 1 0) (VUint64 123) (VUint64 18446744073704552448), Some 0)
   \<and> types_agree (rows_of (one_cell (Finite 1 0) (VUint64 5000000) (VUint64 123)) ''t'')
        (Points (heap (one_cell (Finite 1 0) (VUint64 5000000) (VUint64 123)) ! 0))
   \<and> has_prev (rows_of (one_cell (Finite 1 0) (VUint64 5000000) (VUint64 123)) ''t'') 0 0
   \<and> int_value (VUint64 123) < int_value (VUint64 5000000)
   \<and> 1024 < int_value (VUint64 5000000) - int_value (VUint64 123)
   \<and> \<bar>int_value (VUint64 18446744073704552448) - (2 ^ 64 - (5000000 - 123))\<bar> \<le> 1024
   \<and> DiffFromLast impl_zero (one_cell (Finite 1 0) (VUint32 10) (VUint32 5)) (Some 0)
     = Inr (one_cell_after (Finite 1 0) (VUint32 5) (VUint32 4294967291), Some 0)
   \<and> int_value (VUint32 5) < int_value (VUint32 10)
   \<and> int_value (VUint32 4294967291) = 2 ^ 32 - (10 - 5)"
proof -
  let ?w = "one_cell (Finite 1 0) (VUint64 5000000) (VUint64 123)"
  let ?a = "one_cell_after (Finite 1 0) (VUint64 123) (VUint64 18446744073704552448)"
  let ?v = "one_cell (Finite 1 0) (VUint32 10) (VUint32 5)"
  let ?b = "one_cell_after (Finite 1 0) (VUint32 5) (VUint32 4294967291)"
  have run1: "DiffFromLast impl_zero ?w (Some 0) = Inr (?a, Some 0)"
    by (simp add: one_cell_def one_cell_after_def run_simps)
  have run2: "DiffFromLast impl_zero ?v (Some 0) = Inr (?b, Some 0)"
    by (simp add: one_cell_def one_cell_after_def run_simps)
  have a: "0 < length (heap (one_cell cf old new))"
    "0 < length (Points (heap (one_cell cf old new) ! 0))"
    "0 < length (Points (heap (one_cell cf old new) ! 0) ! 0)"
    "has_prev (rows_of (one_cell cf old new) (Name (heap (one_cell cf old new) ! 0))) 0 0"
    "new = Points (heap (one_cell cf old new) ! 0) ! 0 ! 0"
    "old = rows_of (one_cell cf old new) (Name (heap (one_cell cf old new) ! 0)) ! 0 ! 0"
    "consistencyFactor (one_cell cf old new) = cf"
    "Points (heap (one_cell_after cf new out) ! 0) ! 0 ! 0 = out" for cf old new out
    by (simp_all add: one_cell_def one_cell_after_def has_prev_def rows_of_def)
  have ta: "types_agree (rows_of ?w (Name (heap ?w ! 0))) (Points (heap ?w ! 0))"
    "types_agree (rows_of ?v (Name (heap ?v ! 0))) (Points (heap ?v ! 0))"
    by (simp_all add: one_cell_def types_agree_def rows_of_def)
  have t64: "TUint64 = type_of (VUint64 123)" "integer_type TUint64" "\<not> signed_type TUint64"
    and t32: "TUint32 = type_of (VUint32 5)" "integer_type TUint32" "\<not> signed_type TUint32"
    by simp_all
  have lt: "int_value (VUint64 123) < int_value (VUint64 5000000)"
    "int_value (VUint32 5) < int_value (VUint32 10)"
    "1024 < int_value (VUint64 5000000) - int_value (VUint64 123)"
    by simp_all
  have W1: "2 ^ 64 - (5000000 - 123)
              = 2 ^ width_of TUint64 - (int_value (VUint64 5000000) - int_value (VUint64 123))"
    and W2: "2 ^ 32 - (10 - 5)
              = 2 ^ width_of TUint32 - (int_value (VUint32 10) - int_value (VUint32 5))"
    by simp_all
  from wrapped_difference_is_scaled[OF a(1) refl refl refl ta(1) a(2,3,4,5,6) t64 lt(1) W1,
      of impl_zero]
  obtain w' r where
    w': "DiffFromLast impl_zero ?w (Some 0) = Inr (w', r)" and
    near: "consistencyFactor ?w = Finite 1 0
             \<and> 1024 < int_value (VUint64 5000000) - int_value (VUint64 123)
           \<longrightarrow> \<bar>int_value (Points (heap w' ! 0) ! 0 ! 0) - (2 ^ 64 - (5000000 - 123))\<bar> \<le> 1024"
    by blast
  from w' run1 have eq1: "w' = ?a" by simp
  from near a(7) lt(3)
  have one: "\<bar>int_value (VUint64 18446744073704552448) - (2 ^ 64 - (5000000 - 123))\<bar> \<le> 1024"
    unfolding eq1 a(8) by blast
  from wrapped_difference_is_scaled[OF a(1) refl refl refl ta(2) a(2,3,4,5,6) t32 lt(2) W2,
      of impl_zero]
  obtain v' q where
    v': "DiffFromLast impl_zero ?v (Some 0) = Inr (v', q)" and
    ex: "consistencyFactor ?v = Finite 1 0 \<and> 2 ^ 32 - (10 - 5) < (2::int) ^ 53
           \<longrightarrow> int_value (Points (heap v' ! 0) ! 0 ! 0) = 2 ^ 32 - (10 - 5)"
    by blast
  from v' run2 have eq2: "v' = ?b" by simp
  have "2 ^ 32 - (10 - 5) < (2::int) ^ 53" by simp
  with ex a(7) have two: "int_value (VUint32 4294967291) = 2 ^ 32 - (10 - 5)"
    unfolding eq2 a(8) by blast
  have ta': "types_agree (rows_of ?w ''t'') (Points (heap ?w ! 0))"
    "has_prev (rows_of ?w ''t'') 0 0"
    by (simp_all add: one_cell_def types_agree_def rows_of_def has_prev_def)
  show ?thesis using run1 ta' lt one run2 two by blast
qed


end
